theory Spec2Isabelle
  imports Complex_Main "HOL-Library.Log_Nat"
begin

section \<open>Python numbers\<close>

text \<open>
  The three scripts compute with Python integers (unbounded, modelled as \<open>int\<close>; Python's
  \<open>//\<close> is floor division, as \<open>div\<close> on \<open>int\<close> is) and with Python floats, which are
  IEEE 754 binary64 numbers. The icon scripts divide and multiply in floats
  (\<open>logo.width / logo.height\<close>, \<open>size * 0.8\<close>, \<open>new_width / logo_aspect\<close>) and truncate the
  result with \<open>int(...)\<close>, so the rounding of every float operation is part of what they
  compute. A finite float is modelled by the rational number it denotes; every operation
  rounds the exact result to the nearest binary64 value, ties to even.
\<close>

datatype error = ZeroDivisionError | OverflowError | ValueError | MemoryError

definition and_then :: "error + 'a \<Rightarrow> ('a \<Rightarrow> error + 'b) \<Rightarrow> error + 'b" where
  "and_then m f = (case m of Inl e \<Rightarrow> Inl e | Inr v \<Rightarrow> f v)"

text \<open>
  \<open>ilog2 q\<close> is the binary exponent of a positive rational: the \<open>k\<close> with
  \<open>2^k \<le> q < 2^(k+1)\<close>, found from the bit lengths of numerator and denominator.
\<close>

definition ilog2 :: "rat \<Rightarrow> int" where
  "ilog2 q = (case quotient_of q of (a, b) \<Rightarrow>
     (let k = bitlen a - bitlen b in if 2 powi k \<le> q then k else k - 1))"

definition round_half_even :: "rat \<Rightarrow> int" where
  "round_half_even x = (let f = \<lfloor>x\<rfloor>; d = x - of_int f in
     if d < 1/2 then f else if 1/2 < d then f + 1 else if even f then f else f + 1)"

text \<open>
  \<open>fl q\<close> rounds \<open>q\<close> to binary64: 53 significant bits, and a smallest spacing of
  \<open>2^-1074\<close> in the subnormal range. Values of magnitude \<open>2^1024\<close> or more stand for an
  overflowed result; the operations below say what Python does with them.
\<close>

definition fl :: "rat \<Rightarrow> rat" where
  "fl q = (if q = 0 then 0 else
     (let e = max (ilog2 \<bar>q\<bar> - 52) (- 1074)
      in of_int (round_half_even (q / 2 powi e)) * 2 powi e))"

text \<open>A rounded value overflows binary64 when its binary exponent is 1024 or more.\<close>

definition overflows :: "rat \<Rightarrow> bool" where
  "overflows r = (r \<noteq> 0 \<and> 1024 \<le> ilog2 \<bar>r\<bar>)"

text \<open>Conversion of an \<open>int\<close> operand to float, as \<open>int * float\<close> and \<open>int / float\<close> do first.\<close>

definition float_of_int :: "int \<Rightarrow> error + rat" where
  "float_of_int n = (let r = fl (of_int n) in if overflows r then Inl OverflowError else Inr r)"

text \<open>\<open>a / b\<close> on two ints: the correctly rounded quotient.\<close>

definition int_truediv :: "int \<Rightarrow> int \<Rightarrow> error + rat" where
  "int_truediv a b =
     (if b = 0 then Inl ZeroDivisionError
      else (let r = fl (of_int a / of_int b) in if overflows r then Inl OverflowError else Inr r))"

text \<open>
  Float times float and float by float. An overflowed product or quotient is \<open>inf\<close> in
  Python and raises nothing by itself; in these scripts it can only reach \<open>int(...)\<close>,
  which raises OverflowError on it.
\<close>

definition float_mul :: "rat \<Rightarrow> rat \<Rightarrow> rat" where
  "float_mul a b = fl (a * b)"

definition float_div :: "rat \<Rightarrow> rat \<Rightarrow> error + rat" where
  "float_div a b = (if b = 0 then Inl ZeroDivisionError else Inr (fl (a / b)))"

text \<open>\<open>int(r)\<close> truncates towards zero.\<close>

definition int_of_float :: "rat \<Rightarrow> error + int" where
  "int_of_float r =
     (if overflows r then Inl OverflowError else Inr (if 0 \<le> r then \<lfloor>r\<rfloor> else \<lceil>r\<rceil>))"

text \<open>The literal \<open>0.8\<close> is the float nearest to 4/5.\<close>

definition float_0_8 :: rat where
  "float_0_8 = fl (4 / 5)"

section \<open>Scaling (\<open>create_humaya_icons.py\<close>, lines 27 to 33)\<close>

text \<open>\<open>int(n * 0.8)\<close> and \<open>int(n / a)\<close>, \<open>int(n * a)\<close> for an int \<open>n\<close> and a float \<open>a\<close>.\<close>

definition int_times_0_8 :: "int \<Rightarrow> error + int" where
  "int_times_0_8 n = and_then (float_of_int n) (\<lambda>f. int_of_float (float_mul f float_0_8))"

definition int_div_float :: "int \<Rightarrow> rat \<Rightarrow> error + int" where
  "int_div_float n a =
     and_then (float_of_int n) (\<lambda>f. and_then (float_div f a) int_of_float)"

definition int_times_float :: "int \<Rightarrow> rat \<Rightarrow> error + int" where
  "int_times_float n a = and_then (float_of_int n) (\<lambda>f. int_of_float (float_mul f a))"

text \<open>
  Lines 27 to 33: the size of the resized logo, \<open>(new_width, new_height)\<close>, from the
  logo's width and height and the icon size (\<open>size\<close> in the source, \<open>sz\<close> here).
\<close>

definition content_size :: "int \<Rightarrow> int \<Rightarrow> int \<Rightarrow> error + int \<times> int" where
  "content_size logo_width logo_height sz =
     and_then (int_truediv logo_width logo_height) (\<lambda>logo_aspect.
       if 1 < logo_aspect then
         and_then (int_times_0_8 sz) (\<lambda>new_width.
         and_then (int_div_float new_width logo_aspect) (\<lambda>new_height.
         Inr (new_width, new_height)))
       else
         and_then (int_times_0_8 sz) (\<lambda>new_height.
         and_then (int_times_float new_height logo_aspect) (\<lambda>new_width.
         Inr (new_width, new_height))))"

section \<open>Images and the three library calls of the icon scripts\<close>

text \<open>
  An image has a width, a height and a pixel at every position inside them; a pixel is
  \<open>(red, green, blue, alpha)\<close>. The scripts call three operations of the imaging library
  (Pillow) on images: \<open>Image.new\<close>, \<open>resize\<close> and \<open>paste\<close>. They are modelled by what they
  do to sizes, to failures and to the set of pixels they touch:
  \<^item> \<open>Image.new(mode, (w, h), color)\<close> raises ValueError for a negative width or height,
    OverflowError for one that does not fit a C \<open>int\<close>, MemoryError for a width above
    536870910 (the library refuses a line of more than \<open>(2^31 - 1) div 4 - 1\<close> pixels before
    it allocates anything), and otherwise returns an image of that size with every pixel
    \<open>color\<close>;
  \<^item> \<open>im.resize((w, h), filter)\<close> returns a copy when the size is the image's own,
    raises OverflowError for a size that does not fit a C \<open>int\<close>, ValueError when
    \<open>w < 1\<close> or \<open>h < 1\<close>, MemoryError for a width above 536870910, and otherwise returns
    an image of size \<open>(w, h)\<close>. The resampled pixel values are left open: they are a
    parameter (\<open>resample\<close>) of the model;
  \<^item> \<open>icon.paste(im, (x, y), mask)\<close> changes only the pixels of \<open>icon\<close> inside the box
    that \<open>im\<close> covers when its top left corner is at \<open>(x, y)\<close>. How a covered pixel is
    blended is a parameter too (\<open>blend\<close>).
  The allocator running out of memory for a size within these bounds, and file system
  failures, depend on the machine and are not modelled: a statement about a call that
  returns is about a run in which the memory was there.
\<close>

type_synonym pixel = "nat \<times> nat \<times> nat \<times> nat"

definition alpha :: "pixel \<Rightarrow> nat" where
  "alpha p = (case p of (r, g, b, a) \<Rightarrow> a)"

record image =
  width :: int
  height :: int
  pixel_at :: "int \<Rightarrow> int \<Rightarrow> pixel"

type_synonym resampler = "image \<Rightarrow> int \<Rightarrow> int \<Rightarrow> int \<Rightarrow> int \<Rightarrow> pixel"

type_synonym blender = "pixel \<Rightarrow> pixel \<Rightarrow> pixel"

definition fits_c_int :: "int \<Rightarrow> bool" where
  "fits_c_int n = (- (2 ^ 31) \<le> n \<and> n < 2 ^ 31)"

definition Image_new :: "int \<Rightarrow> int \<Rightarrow> pixel \<Rightarrow> error + image" where
  "Image_new w h color =
     (if w < 0 \<or> h < 0 then Inl ValueError
      else if fits_c_int w \<and> fits_c_int h then
        (if 536870910 < w then Inl MemoryError
         else Inr \<lparr>width = w, height = h, pixel_at = (\<lambda>i j. color)\<rparr>)
      else Inl OverflowError)"

definition resize :: "resampler \<Rightarrow> image \<Rightarrow> int \<times> int \<Rightarrow> error + image" where
  "resize resample im wh = (case wh of (w, h) \<Rightarrow>
     if (width im, height im) = (w, h) then Inr im
     else if fits_c_int w \<and> fits_c_int h then
       (if w < 1 \<or> h < 1 then Inl ValueError
        else if 536870910 < w then Inl MemoryError
        else Inr \<lparr>width = w, height = h, pixel_at = resample im w h\<rparr>)
     else Inl OverflowError)"

definition paste :: "blender \<Rightarrow> image \<Rightarrow> image \<Rightarrow> int \<times> int \<Rightarrow> image" where
  "paste blend icon im xy = (case xy of (x, y) \<Rightarrow>
     icon\<lparr>pixel_at := (\<lambda>i j.
       if x \<le> i \<and> i < x + width im \<and> y \<le> j \<and> j < y + height im
       then blend (pixel_at icon i j) (pixel_at im (i - x) (j - y))
       else pixel_at icon i j)\<rparr>)"

section \<open>One icon (\<open>create_humaya_icons.py\<close>, lines 24 to 43)\<close>

text \<open>
  The body of the loop, for one entry of the size table: the local variables it has
  computed when \<open>paste\<close> returns. \<open>pos_x\<close> and \<open>pos_y\<close> are the source's \<open>x\<close> and \<open>y\<close>.
\<close>

record rendering =
  icon :: image
  new_width :: int
  new_height :: int
  pos_x :: int
  pos_y :: int

definition render_icon :: "resampler \<Rightarrow> blender \<Rightarrow> image \<Rightarrow> int \<Rightarrow> error + rendering" where
  "render_icon resample blend logo sz =
     and_then (Image_new sz sz (255, 255, 255, 0)) (\<lambda>canvas.
     and_then (content_size (width logo) (height logo) sz) (\<lambda>(nw, nh).
     and_then (resize resample logo (nw, nh)) (\<lambda>resized_logo.
       (let x = (sz - nw) div 2;
            y = (sz - nh) div 2
        in Inr \<lparr>icon = paste blend canvas resized_logo (x, y),
                new_width = nw, new_height = nh, pos_x = x, pos_y = y\<rparr>))))"

section \<open>The Android generator (\<open>create_humaya_icons.py\<close>)\<close>

definition sizes :: "(string \<times> int) list" where
  "sizes =
     [(''mipmap-mdpi'', 48),
      (''mipmap-hdpi'', 72),
      (''mipmap-xhdpi'', 96),
      (''mipmap-xxhdpi'', 144),
      (''mipmap-xxxhdpi'', 192)]"

definition base_path :: string where
  "base_path = ''/Users/admin/development/BMS App/android/app/src/main/res''"

text \<open>\<open>os.path.join\<close> on two components (POSIX).\<close>

definition path_join :: "string \<Rightarrow> string \<Rightarrow> string" where
  "path_join a b =
     (if b \<noteq> [] \<and> hd b = CHR ''/'' then b
      else if a = [] \<or> last a = CHR ''/'' then a @ b
      else a @ ''/'' @ b)"

text \<open>
  The loop over \<open>sizes.items()\<close>, in the order of the table. The state is the list of
  files saved so far, each with its path; an exception ends the run and leaves the files
  already saved.
\<close>

fun save_icons ::
  "resampler \<Rightarrow> blender \<Rightarrow> image \<Rightarrow> (string \<times> int) list \<Rightarrow> (string \<times> image) list
    \<Rightarrow> (string \<times> image) list \<times> error option" where
  "save_icons resample blend logo [] saved = (saved, None)"
| "save_icons resample blend logo ((folder, sz) # rest) saved =
     (case render_icon resample blend logo sz of
        Inl e \<Rightarrow> (saved, Some e)
      | Inr r \<Rightarrow>
          (let icon_path = path_join (path_join base_path folder) ''ic_launcher.png''
           in save_icons resample blend logo rest (saved @ [(icon_path, icon r)])))"

definition create_app_icons_from_logo ::
  "resampler \<Rightarrow> blender \<Rightarrow> image \<Rightarrow> (string \<times> image) list \<times> error option" where
  "create_app_icons_from_logo resample blend logo = save_icons resample blend logo sizes []"

section \<open>One iOS icon (\<open>create_ios_icons.py\<close>, lines 33 to 52)\<close>

definition ios_content_size :: "int \<Rightarrow> int \<Rightarrow> int \<Rightarrow> error + int \<times> int" where
  "ios_content_size logo_width logo_height sz =
     and_then (int_truediv logo_width logo_height) (\<lambda>logo_aspect.
       if 1 < logo_aspect then
         and_then (int_times_0_8 sz) (\<lambda>new_width.
         and_then (int_div_float new_width logo_aspect) (\<lambda>new_height.
         Inr (new_width, new_height)))
       else
         and_then (int_times_0_8 sz) (\<lambda>new_height.
         and_then (int_times_float new_height logo_aspect) (\<lambda>new_width.
         Inr (new_width, new_height))))"

definition ios_render_icon :: "resampler \<Rightarrow> blender \<Rightarrow> image \<Rightarrow> int \<Rightarrow> error + rendering" where
  "ios_render_icon resample blend logo sz =
     and_then (Image_new sz sz (255, 255, 255, 0)) (\<lambda>canvas.
     and_then (ios_content_size (width logo) (height logo) sz) (\<lambda>(nw, nh).
     and_then (resize resample logo (nw, nh)) (\<lambda>resized_logo.
       (let x = (sz - nw) div 2;
            y = (sz - nh) div 2
        in Inr \<lparr>icon = paste blend canvas resized_logo (x, y),
                new_width = nw, new_height = nh, pos_x = x, pos_y = y\<rparr>))))"

section \<open>The drawn emblem (\<open>create_logo.py\<close>, \<open>create_humaya_logo\<close>)\<close>

text \<open>
  \<open>create_humaya_logo\<close> allocates a transparent canvas and draws on it, in place: one
  \<open>draw.ellipse\<close> and three \<open>draw.rectangle\<close>, each with a box \<open>[x0, y0, x1, y1]\<close> and a fill
  colour. The image is threaded through the four calls.

  The library's two drawing calls:
  \<^item> both raise ValueError for a box whose end precedes its start;
  \<^item> \<open>draw.rectangle(box, fill)\<close> sets every pixel of the image with
    \<open>x0 \<le> i \<le> x1\<close> and \<open>y0 \<le> j \<le> y1\<close> to \<open>fill\<close>: the box includes both of its end points;
  \<^item> \<open>draw.ellipse(box, fill)\<close> sets pixels of the image within the same box, end points
    included, to \<open>fill\<close>. Which pixels of the box the ellipse covers is the library's
    rasterisation; it is a parameter (\<open>covers\<close>) of the model.
  A pixel outside the image is never written.
\<close>

type_synonym box = "int \<times> int \<times> int \<times> int"

type_synonym ellipse_filler = "box \<Rightarrow> int \<Rightarrow> int \<Rightarrow> bool"

definition in_box :: "box \<Rightarrow> int \<Rightarrow> int \<Rightarrow> bool" where
  "in_box xy i j = (case xy of (x0, y0, x1, y1) \<Rightarrow> x0 \<le> i \<and> i \<le> x1 \<and> y0 \<le> j \<and> j \<le> y1)"

definition inside :: "image \<Rightarrow> int \<Rightarrow> int \<Rightarrow> bool" where
  "inside im i j = (0 \<le> i \<and> i < width im \<and> 0 \<le> j \<and> j < height im)"

definition draw_ellipse :: "ellipse_filler \<Rightarrow> image \<Rightarrow> box \<Rightarrow> pixel \<Rightarrow> error + image" where
  "draw_ellipse covers im xy fill = (case xy of (x0, y0, x1, y1) \<Rightarrow>
     if x1 < x0 \<or> y1 < y0 then Inl ValueError
     else Inr (im\<lparr>pixel_at := (\<lambda>i j.
       if inside im i j \<and> in_box xy i j \<and> covers xy i j then fill
       else pixel_at im i j)\<rparr>))"

definition draw_rectangle :: "image \<Rightarrow> box \<Rightarrow> pixel \<Rightarrow> error + image" where
  "draw_rectangle im xy fill = (case xy of (x0, y0, x1, y1) \<Rightarrow>
     if x1 < x0 \<or> y1 < y0 then Inl ValueError
     else Inr (im\<lparr>pixel_at := (\<lambda>i j.
       if inside im i j \<and> in_box xy i j then fill
       else pixel_at im i j)\<rparr>))"

definition orange_color :: pixel where
  "orange_color = (255, 102, 0, 255)"

definition white_color :: pixel where
  "white_color = (255, 255, 255, 255)"

definition create_humaya_logo :: "ellipse_filler \<Rightarrow> int \<Rightarrow> error + image" where
  "create_humaya_logo covers sz =
     and_then (Image_new sz sz (0, 0, 0, 0)) (\<lambda>img.
       (let margin = sz div 10;
            circle_size = sz - 2 * margin;
            h_width = sz div 3;
            h_height = sz div 2;
            h_thickness = sz div 12;
            h_x = (sz - h_width) div 2;
            h_y = (sz - h_height) div 2;
            h_middle_y = h_y + h_height div 2 - h_thickness div 2
        in
          and_then (draw_ellipse covers img
            (margin, margin, margin + circle_size, margin + circle_size) orange_color) (\<lambda>img.
          and_then (draw_rectangle img
            (h_x, h_y, h_x + h_thickness, h_y + h_height) white_color) (\<lambda>img.
          and_then (draw_rectangle img
            (h_x + h_width - h_thickness, h_y, h_x + h_width, h_y + h_height) white_color) (\<lambda>img.
          and_then (draw_rectangle img
            (h_x, h_middle_y, h_x + h_width, h_middle_y + h_thickness) white_color) (\<lambda>img.
          Inr img))))))"

section \<open>Concrete inputs\<close>

text \<open>
  A logo of one colour, a nearest-neighbour resampler and a blend that keeps the
  destination where the source is transparent: concrete values for the parameters,
  used to evaluate the definitions.
\<close>

definition plain_logo :: "int \<Rightarrow> int \<Rightarrow> image" where
  "plain_logo w h = \<lparr>width = w, height = h, pixel_at = (\<lambda>i j. (255, 102, 0, 255))\<rparr>"

definition nearest :: resampler where
  "nearest im w h i j = pixel_at im (i * width im div w) (j * height im div h)"

definition over :: blender where
  "over dst src = (if alpha src = 0 then dst else src)"

section \<open>The scaling rule in exact arithmetic\<close>

text \<open>
  The scaling rule as the specification words it, with the aspect ratio, the product by
  0.8 and the quotient taken as exact rational numbers and \<open>floor\<close> applied to them. It is
  the reference the float computation of \<open>content_size\<close> is compared with.
\<close>

definition spec_content_size :: "int \<Rightarrow> int \<Rightarrow> int \<Rightarrow> int \<times> int" where
  "spec_content_size w h sz =
     (let aspect = (of_int w / of_int h :: rat) in
      if 1 < aspect then
        (let newWidth = \<lfloor>of_int sz * (8 / 10 :: rat)\<rfloor> in (newWidth, \<lfloor>of_int newWidth / aspect\<rfloor>))
      else
        (let newHeight = \<lfloor>of_int sz * (8 / 10 :: rat)\<rfloor> in (\<lfloor>of_int newHeight * aspect\<rfloor>, newHeight)))"

section \<open>Rounding to binary64: bounds\<close>

lemma two_powi_pos: "0 < (2::rat) powi k"
  by (simp add: power_int_def)

lemma two_powi_less_iff: "(2::rat) powi m < 2 powi n \<longleftrightarrow> m < n"
proof
  assume "(2::rat) powi m < 2 powi n"
  show "m < n"
  proof (rule ccontr)
    assume "\<not> m < n"
    then have "n \<le> m" by simp
    then have "(2::rat) powi n \<le> 2 powi m" by (intro power_int_increasing) auto
    with \<open>(2::rat) powi m < 2 powi n\<close> show False by simp
  qed
next
  assume "m < n"
  then show "(2::rat) powi m < 2 powi n" by (intro power_int_strict_increasing) auto
qed

lemma ilog2_bounds:
  assumes "0 < q"
  shows "2 powi (ilog2 q) \<le> q" and "q < 2 powi (ilog2 q + 1)"
proof -
  obtain a b where ab: "quotient_of q = (a, b)" by (cases "quotient_of q")
  then have b: "0 < b" and q: "q = of_int a / of_int b"
    by (auto dest: quotient_of_denom_pos quotient_of_div)
  from assms q b have a: "0 < a" by (simp add: zero_less_divide_iff)
  define la where "la = bitlen a"
  define lb where "lb = bitlen b"
  from bitlen_bounds[OF a] have a1: "2 ^ nat (la - 1) \<le> a" and a2: "a < 2 ^ nat la"
    by (auto simp: la_def)
  from bitlen_bounds[OF b] have b1: "2 ^ nat (lb - 1) \<le> b" and b2: "b < 2 ^ nat lb"
    by (auto simp: lb_def)
  have la: "1 \<le> la" using a by (auto simp: la_def bitlen_alt_def)
  have lb: "1 \<le> lb" using b by (auto simp: lb_def bitlen_alt_def)
  have ra1: "(2::rat) powi (la - 1) \<le> of_int a"
  proof -
    have "(of_int (2 ^ nat (la - 1)) :: rat) \<le> of_int a" using a1 by (simp only: of_int_le_iff)
    then show ?thesis using la by (simp add: power_int_def)
  qed
  have ra2: "of_int a < (2::rat) powi la"
  proof -
    have "(of_int a :: rat) < of_int (2 ^ nat la)" using a2 by (simp only: of_int_less_iff)
    then show ?thesis using la by (simp add: power_int_def)
  qed
  have rb1: "(2::rat) powi (lb - 1) \<le> of_int b"
  proof -
    have "(of_int (2 ^ nat (lb - 1)) :: rat) \<le> of_int b" using b1 by (simp only: of_int_le_iff)
    then show ?thesis using lb by (simp add: power_int_def)
  qed
  have rb2: "of_int b < (2::rat) powi lb"
  proof -
    have "(of_int b :: rat) < of_int (2 ^ nat lb)" using b2 by (simp only: of_int_less_iff)
    then show ?thesis using lb by (simp add: power_int_def)
  qed
  have bpos: "(0::rat) < of_int b" using b by simp
  have lower: "2 powi (la - lb - 1) < q"
  proof -
    have "(2::rat) powi (la - lb - 1) * of_int b < 2 powi (la - lb - 1) * 2 powi lb"
      using rb2 two_powi_pos by (intro mult_strict_left_mono) auto
    also have "\<dots> = 2 powi (la - 1)"
      by (simp flip: power_int_add)
    also have "\<dots> \<le> of_int a" by (rule ra1)
    finally show ?thesis using bpos by (simp add: q pos_less_divide_eq)
  qed
  have upper: "q < 2 powi (la - lb + 1)"
  proof -
    have "of_int a < (2::rat) powi la" by (rule ra2)
    also have "\<dots> = 2 powi (la - lb + 1) * 2 powi (lb - 1)"
      by (simp flip: power_int_add)
    also have "\<dots> \<le> 2 powi (la - lb + 1) * of_int b"
      using rb1 two_powi_pos[of "la - lb + 1"] by (intro mult_left_mono) auto
    finally show ?thesis using bpos by (simp add: q pos_divide_less_eq)
  qed
  have il: "ilog2 q = (if 2 powi (la - lb) \<le> q then la - lb else la - lb - 1)"
    by (simp add: ilog2_def ab la_def lb_def Let_def)
  show "2 powi (ilog2 q) \<le> q"
    using lower by (auto simp: il)
  show "q < 2 powi (ilog2 q + 1)"
    using upper by (auto simp: il not_le)
qed

lemma ilog2_less: "0 < q \<Longrightarrow> q < 2 powi k \<Longrightarrow> ilog2 q < k"
  using ilog2_bounds(1)[of q] two_powi_less_iff[of "ilog2 q" k] by simp

lemma ilog2_ge: "0 < q \<Longrightarrow> 2 powi k \<le> q \<Longrightarrow> k \<le> ilog2 q"
  using ilog2_bounds(2)[of q] two_powi_less_iff[of k "ilog2 q + 1"] by simp

lemma ilog2_small: "0 < x \<Longrightarrow> x < 2 ^ 53 \<Longrightarrow> ilog2 x - 52 \<le> 0"
  using ilog2_less[of x 53] by simp

lemma round_half_even_ge: "of_int n \<le> x \<Longrightarrow> n \<le> round_half_even x"
proof -
  assume "of_int n \<le> x"
  then have "n \<le> \<lfloor>x\<rfloor>" by (simp add: le_floor_iff)
  then show ?thesis by (auto simp: round_half_even_def Let_def)
qed

lemma round_half_even_le: "x \<le> of_int n \<Longrightarrow> round_half_even x \<le> n"
proof -
  assume le: "x \<le> of_int n"
  show ?thesis
  proof (cases "x = of_int n")
    case True
    then show ?thesis by (simp add: round_half_even_def)
  next
    case False
    with le have "x < of_int n" by simp
    then have "\<lfloor>x\<rfloor> < n" by (simp add: floor_less_iff)
    then show ?thesis by (auto simp: round_half_even_def Let_def)
  qed
qed

lemma round_half_even_error: "\<bar>of_int (round_half_even x) - x\<bar> \<le> 1 / 2"
proof -
  define f where "f = \<lfloor>x\<rfloor>"
  define d where "d = x - of_int f"
  have d: "0 \<le> d" "d < 1" by (simp_all add: d_def f_def) linarith
  have r: "round_half_even x =
      (if d < 1 / 2 then f else if 1 / 2 < d then f + 1 else if even f then f else f + 1)"
    by (simp add: round_half_even_def Let_def f_def d_def)
  have lo: "\<bar>of_int f - x\<bar> = d" using d by (simp add: d_def)
  have hi: "\<bar>of_int (f + 1) - x\<bar> = 1 - d" using d by (simp add: d_def)
  consider "d < 1 / 2" | "1 / 2 < d" | "d = 1 / 2" by linarith
  then show ?thesis
  proof cases
    case 1
    then have "round_half_even x = f" by (simp add: r)
    then show ?thesis using lo 1 by simp
  next
    case 2
    then have "round_half_even x = f + 1" by (simp add: r)
    then show ?thesis using hi 2 by simp
  next
    case 3
    show ?thesis
    proof (cases "even f")
      case True
      then have "round_half_even x = f" using 3 by (simp add: r)
      then show ?thesis using lo 3 by simp
    next
      case False
      then have "round_half_even x = f + 1" using 3 by (simp add: r)
      then show ?thesis using hi 3 by simp
    qed
  qed
qed

text \<open>
  Rounding never crosses a value that is itself representable at the exponent of the
  rounded number: a multiple \<open>n * 2^s\<close> with \<open>s\<close> not below that exponent.
\<close>

lemma fl_le_grid:
  assumes x: "0 < x" and le: "x \<le> of_int n * 2 powi s"
    and s1: "ilog2 x - 52 \<le> s" and s2: "- 1074 \<le> s"
  shows "fl x \<le> of_int n * 2 powi s"
proof -
  define e where "e = max (ilog2 x - 52) (- 1074)"
  have es: "e \<le> s" using s1 s2 by (simp add: e_def)
  have pe: "(0::rat) < 2 powi e" by (rule two_powi_pos)
  have split: "(2::rat) powi s = 2 powi (s - e) * 2 powi e"
    by (simp flip: power_int_add)
  have nn: "(2::rat) powi (s - e) = of_int (2 ^ nat (s - e))"
    using es by (simp add: power_int_def)
  have "x / 2 powi e \<le> of_int n * 2 powi (s - e)"
    using le pe by (simp add: split pos_divide_le_eq mult.assoc)
  also have "\<dots> = of_int (n * 2 ^ nat (s - e))" by (simp add: nn)
  finally have "round_half_even (x / 2 powi e) \<le> n * 2 ^ nat (s - e)"
    by (rule round_half_even_le)
  then have "(of_int (round_half_even (x / 2 powi e)) :: rat) \<le> of_int (n * 2 ^ nat (s - e))"
    by (simp only: of_int_le_iff)
  then have "of_int (round_half_even (x / 2 powi e)) * 2 powi e
      \<le> (of_int (n * 2 ^ nat (s - e)) :: rat) * 2 powi e"
    using pe by (intro mult_right_mono) auto
  also have "\<dots> = of_int n * 2 powi s" by (simp add: split nn)
  finally show ?thesis using x by (simp add: fl_def e_def Let_def)
qed

lemma fl_ge_grid:
  assumes x: "0 < x" and le: "of_int n * 2 powi s \<le> x"
    and s1: "ilog2 x - 52 \<le> s" and s2: "- 1074 \<le> s"
  shows "of_int n * 2 powi s \<le> fl x"
proof -
  define e where "e = max (ilog2 x - 52) (- 1074)"
  have es: "e \<le> s" using s1 s2 by (simp add: e_def)
  have pe: "(0::rat) < 2 powi e" by (rule two_powi_pos)
  have split: "(2::rat) powi s = 2 powi (s - e) * 2 powi e"
    by (simp flip: power_int_add)
  have nn: "(2::rat) powi (s - e) = of_int (2 ^ nat (s - e))"
    using es by (simp add: power_int_def)
  have "of_int (n * 2 ^ nat (s - e)) = of_int n * (2::rat) powi (s - e)" by (simp add: nn)
  also have "\<dots> \<le> x / 2 powi e"
    using le pe by (simp add: split pos_le_divide_eq mult.assoc)
  finally have "n * 2 ^ nat (s - e) \<le> round_half_even (x / 2 powi e)"
    by (rule round_half_even_ge)
  then have "(of_int (n * 2 ^ nat (s - e)) :: rat) \<le> of_int (round_half_even (x / 2 powi e))"
    by (simp only: of_int_le_iff)
  then have mono: "(of_int (n * 2 ^ nat (s - e)) :: rat) * 2 powi e
      \<le> of_int (round_half_even (x / 2 powi e)) * 2 powi e"
    using pe by (intro mult_right_mono) auto
  have "of_int n * 2 powi s = (of_int (n * 2 ^ nat (s - e)) :: rat) * 2 powi e"
    by (simp add: split nn)
  also note mono
  finally show ?thesis using x by (simp add: fl_def e_def Let_def)
qed

lemma fl_nonneg: "0 \<le> x \<Longrightarrow> 0 \<le> fl x"
proof -
  assume x: "0 \<le> x"
  have "0 \<le> round_half_even (x / 2 powi e)" for e
    using x two_powi_pos[of e] by (intro round_half_even_ge) simp
  then show ?thesis using two_powi_pos
    by (auto simp: fl_def Let_def intro!: mult_nonneg_nonneg less_imp_le)
qed

lemma fl_le_int:
  assumes "0 \<le> x" "x \<le> of_int n" "n < 2 ^ 53"
  shows "fl x \<le> of_int n"
proof (cases "x = 0")
  case True
  with assms show ?thesis by (simp add: fl_def)
next
  case False
  with assms have x: "0 < x" by simp
  have "(of_int n :: rat) < of_int (2 ^ 53)" using assms(3) by (simp only: of_int_less_iff)
  with assms(2) have "x < 2 ^ 53" by simp
  then have "ilog2 x - 52 \<le> 0" using x by (rule ilog2_small[rotated])
  from fl_le_grid[OF x _ this, of n] assms(2) show ?thesis by simp
qed

lemma fl_ge_int:
  assumes "0 \<le> x" "x < 2 ^ 53" "of_int n \<le> x"
  shows "of_int n \<le> fl x"
proof (cases "x = 0")
  case True
  with assms show ?thesis by (simp add: fl_def)
next
  case False
  with assms have x: "0 < x" by simp
  then have "ilog2 x - 52 \<le> 0" using assms(2) by (rule ilog2_small)
  from fl_ge_grid[OF x _ this, of n] assms(3) show ?thesis by simp
qed

lemma fl_of_int:
  assumes "0 \<le> n" "n < 2 ^ 53"
  shows "fl (of_int n) = of_int n"
proof -
  have "(of_int n :: rat) < of_int (2 ^ 53)" using assms(2) by (simp only: of_int_less_iff)
  then have lt: "(of_int n :: rat) < 2 ^ 53" by simp
  have "fl (of_int n) \<le> of_int n" using assms by (intro fl_le_int) auto
  moreover have "of_int n \<le> fl (of_int n)" using assms lt by (intro fl_ge_int) auto
  ultimately show ?thesis by simp
qed

text \<open>
  Rounding moves a positive value in the normal range by at most the fraction \<open>2^-53\<close>
  of it.
\<close>

lemma fl_rel_error:
  assumes x: "0 < x" and n: "- 1022 \<le> ilog2 x"
  shows "(1 - 1 / 2 ^ 53) * x \<le> fl x" and "fl x \<le> (1 + 1 / 2 ^ 53) * x"
proof -
  define e where "e = ilog2 x - 52"
  define y where "y = x / 2 powi e"
  have pe: "(0::rat) < 2 powi e" by (rule two_powi_pos)
  have m: "max (ilog2 \<bar>x\<bar> - 52) (- 1074) = e" using n x by (simp add: e_def)
  have x0: "x \<noteq> 0" using x by simp
  have fl: "fl x = of_int (round_half_even y) * 2 powi e"
    unfolding fl_def Let_def m y_def using x0 by (simp only: if_False)
  have xy: "x = y * 2 powi e" using pe by (simp add: y_def)
  have "2 powi (e + 52) \<le> x" using ilog2_bounds(1)[OF x] by (simp add: e_def)
  then have "2 powi e * 2 ^ 52 \<le> x" by (simp add: power_int_add)
  then have ulp: "(1 / 2) * 2 powi e \<le> x / 2 ^ 53" by simp
  have "fl x - x = (of_int (round_half_even y) - y) * 2 powi e"
    by (subst (2) xy) (simp only: fl left_diff_distrib)
  then have "\<bar>fl x - x\<bar> = \<bar>of_int (round_half_even y) - y\<bar> * 2 powi e"
    using pe by (simp only: abs_mult)
  also have "\<dots> \<le> (1 / 2) * 2 powi e"
    using round_half_even_error[of y] pe by (intro mult_right_mono) auto
  also note ulp
  finally have "\<bar>fl x - x\<bar> \<le> x / 2 ^ 53" .
  then have a: "x - fl x \<le> x / 2 ^ 53" "fl x - x \<le> x / 2 ^ 53" by linarith+
  have "(1 - 1 / 2 ^ 53) * x = x - x / 2 ^ 53" by (simp add: algebra_simps)
  then show "(1 - 1 / 2 ^ 53) * x \<le> fl x" using a(1) by linarith
  have "(1 + 1 / 2 ^ 53) * x = x + x / 2 ^ 53" by (simp add: algebra_simps)
  then show "fl x \<le> (1 + 1 / 2 ^ 53) * x" using a(2) by linarith
qed

lemma not_overflows:
  assumes "0 \<le> r" "r < 2 ^ 53"
  shows "\<not> overflows r"
proof (cases "r = 0")
  case True
  then show ?thesis by (simp add: overflows_def)
next
  case False
  with assms have "0 < r" by simp
  then have "ilog2 r < 53" using assms(2) ilog2_less[of r 53] by simp
  then show ?thesis using assms(1) by (simp add: overflows_def)
qed

lemma not_overflows_0: "\<not> overflows 0"
  by (simp add: overflows_def)

section \<open>The float operations of the scripts on integers in range\<close>

lemma float_0_8_value: "float_0_8 = 3602879701896397 / 4503599627370496"
  by code_simp

lemma float_of_int_exact:
  assumes "0 \<le> n" "n < 2 ^ 53"
  shows "float_of_int n = Inr (of_int n)"
proof -
  have "(of_int n :: rat) < of_int (2 ^ 53)" using assms(2) by (simp only: of_int_less_iff)
  then have "\<not> overflows (of_int n)" using assms(1) by (intro not_overflows) auto
  then show ?thesis using assms by (simp add: float_of_int_def fl_of_int)
qed

lemma int_of_float_floor:
  assumes "0 \<le> r" "r < 2 ^ 53"
  shows "int_of_float r = Inr \<lfloor>r\<rfloor>"
  using assms not_overflows[of r] by (simp add: int_of_float_def)

lemma scaled_bounds:
  fixes rn rk :: rat
  assumes "5 * rk \<le> 4 * rn" "4 * rn \<le> 5 * rk + 4" "0 \<le> rn" "rn < 2147483648"
  defines "x \<equiv> rn * 3602879701896397 / 4503599627370496"
  shows "0 \<le> x" "rk \<le> x" "x \<le> (16 * rk + 13) / 16" "x < 562949953421312"
  using assms by simp_all

text \<open>
  \<open>int(n * 0.8)\<close> is the floor of the exact \<open>4 n / 5\<close> for every \<open>n\<close> that \<open>Image.new\<close>
  accepts as a size.
\<close>

lemma int_times_0_8_eq:
  assumes n0: "0 \<le> n" and n1: "n < 2 ^ 31"
  shows "int_times_0_8 n = Inr ((4 * n) div 5)"
proof -
  define k where "k = (4 * n) div 5"
  define x :: rat where "x = of_int n * float_0_8"
  have k1: "5 * k \<le> 4 * n" and k2: "4 * n \<le> 5 * k + 4"
    by (auto simp: k_def)
  have k0: "0 \<le> k" using n0 by (simp add: k_def)
  have kn: "k \<le> n" using k1 n0 by arith
  have "(of_int (5 * k) :: rat) \<le> of_int (4 * n)" using k1 by (simp only: of_int_le_iff)
  then have rk1: "5 * (of_int k :: rat) \<le> 4 * of_int n" by simp
  have "(of_int (4 * n) :: rat) \<le> of_int (5 * k + 4)" using k2 by (simp only: of_int_le_iff)
  then have rk2: "4 * (of_int n :: rat) \<le> 5 * of_int k + 4" by simp
  have rn0: "(0::rat) \<le> of_int n" using n0 by simp
  have "(of_int n :: rat) < of_int (2 ^ 31)" using n1 by (simp only: of_int_less_iff)
  then have rn1: "(of_int n :: rat) < 2147483648" by simp
  have xdef: "x = of_int n * 3602879701896397 / 4503599627370496"
    by (simp add: x_def float_0_8_value)
  note b = scaled_bounds[OF rk1 rk2 rn0 rn1, folded xdef]
  have x0: "0 \<le> x" by (rule b(1))
  have xk: "of_int k \<le> x" by (rule b(2))
  have xu: "x \<le> of_int (16 * k + 13) * 2 powi (- 4)"
    using b(3) by (simp add: power_int_minus)
  have xs: "x < 2 ^ 49" using b(4) by simp
  have xs': "x < 2 ^ 53" using b(4) by simp
  have nf: "float_of_int n = Inr (of_int n)"
    using n0 n1 by (intro float_of_int_exact) auto
  have lo: "of_int k \<le> fl x"
    using x0 xs' xk by (rule fl_ge_int)
  have hi: "fl x < of_int k + 1"
  proof (cases "x = 0")
    case True
    show ?thesis using k0 by (simp add: True fl_def)
  next
    case False
    with x0 have xp: "0 < x" by simp
    have "ilog2 x < 49" using xp xs ilog2_less[of x 49] by simp
    then have "fl x \<le> of_int (16 * k + 13) * 2 powi (- 4)"
      using xp xu by (intro fl_le_grid) auto
    also have "\<dots> < of_int k + 1" by (simp add: power_int_minus)
    finally show ?thesis .
  qed
  have fx0: "0 \<le> fl x" using x0 by (rule fl_nonneg)
  have "k + 1 \<le> 2 ^ 31" using kn n1 by simp
  then have "(of_int (k + 1) :: rat) \<le> of_int (2 ^ 31)" by (simp only: of_int_le_iff)
  then have "(of_int k :: rat) + 1 \<le> 2147483648" by simp
  then have fxs: "fl x < 2 ^ 53" using hi by simp
  have "\<lfloor>fl x\<rfloor> = k" using lo hi by (simp add: floor_unique)
  then show ?thesis
    using int_of_float_floor[OF fx0 fxs]
    by (simp add: int_times_0_8_def nf and_then_def float_mul_def x_def k_def)
qed

lemma floor_80_percent: "\<lfloor>of_int sz * (8 / 10 :: rat)\<rfloor> = (4 * sz) div 5"
proof -
  have "of_int sz * (8 / 10 :: rat) = of_int (4 * sz) / of_int 5" by simp
  then show ?thesis by (simp only: floor_divide_of_int_eq)
qed

lemma int_div_float_bounds:
  assumes n0: "0 \<le> n" and n1: "n < 2 ^ 53" and a: "1 \<le> a"
  shows "\<exists>m. int_div_float n a = Inr m \<and> 0 \<le> m \<and> m \<le> n \<and> (a \<le> of_int n \<longrightarrow> 1 \<le> m)"
proof -
  define x :: rat where "x = of_int n / a"
  have rn0: "(0::rat) \<le> of_int n" using n0 by simp
  have "(of_int n :: rat) < of_int (2 ^ 53)" using n1 by (simp only: of_int_less_iff)
  then have rn1: "(of_int n :: rat) < 2 ^ 53" by simp
  have x0: "0 \<le> x" using rn0 a by (simp add: x_def)
  have "of_int n * 1 \<le> of_int n * a" using rn0 a by (rule mult_left_mono[rotated])
  then have xn: "x \<le> of_int n" using a by (simp add: x_def pos_divide_le_eq)
  have xs: "x < 2 ^ 53" using xn rn1 by simp
  have f0: "0 \<le> fl x" using x0 by (rule fl_nonneg)
  have fn: "fl x \<le> of_int n" using x0 xn n1 by (rule fl_le_int)
  have fs: "fl x < 2 ^ 53" using fn rn1 by simp
  have pos: "1 \<le> \<lfloor>fl x\<rfloor>" if "a \<le> of_int n"
  proof -
    have "1 \<le> x" using that a by (simp add: x_def pos_le_divide_eq)
    then have "of_int 1 \<le> fl x" using x0 xs by (intro fl_ge_int) auto
    then show ?thesis by (simp add: le_floor_iff)
  qed
  have "int_div_float n a = Inr \<lfloor>fl x\<rfloor>"
    using a int_of_float_floor[OF f0 fs] float_of_int_exact[OF n0 n1]
    by (simp add: int_div_float_def and_then_def float_div_def x_def)
  moreover have "0 \<le> \<lfloor>fl x\<rfloor>" using f0 by simp
  moreover have "\<lfloor>fl x\<rfloor> \<le> n" using fn by (simp add: floor_le_iff)
  ultimately show ?thesis using pos by simp
qed

lemma int_times_float_bounds:
  assumes n0: "0 \<le> n" and n1: "n < 2 ^ 53" and a0: "0 \<le> a" and a1: "a \<le> 1"
  shows "\<exists>m. int_times_float n a = Inr m \<and> 0 \<le> m \<and> m \<le> n \<and> (1 \<le> of_int n * a \<longrightarrow> 1 \<le> m)"
proof -
  define x :: rat where "x = of_int n * a"
  have rn0: "(0::rat) \<le> of_int n" using n0 by simp
  have "(of_int n :: rat) < of_int (2 ^ 53)" using n1 by (simp only: of_int_less_iff)
  then have rn1: "(of_int n :: rat) < 2 ^ 53" by simp
  have x0: "0 \<le> x" using rn0 a0 by (simp add: x_def)
  have xn: "x \<le> of_int n" using rn0 a1 by (simp add: x_def mult_left_le)
  have xs: "x < 2 ^ 53" using xn rn1 by simp
  have f0: "0 \<le> fl x" using x0 by (rule fl_nonneg)
  have fn: "fl x \<le> of_int n" using x0 xn n1 by (rule fl_le_int)
  have fs: "fl x < 2 ^ 53" using fn rn1 by simp
  have pos: "1 \<le> \<lfloor>fl x\<rfloor>" if "1 \<le> of_int n * a"
  proof -
    have "1 \<le> x" using that by (simp add: x_def)
    then have "of_int 1 \<le> fl x" using x0 xs by (intro fl_ge_int) auto
    then show ?thesis by (simp add: le_floor_iff)
  qed
  have "int_times_float n a = Inr \<lfloor>fl x\<rfloor>"
    using int_of_float_floor[OF f0 fs] float_of_int_exact[OF n0 n1]
    by (simp add: int_times_float_def and_then_def float_mul_def x_def)
  moreover have "0 \<le> \<lfloor>fl x\<rfloor>" using f0 by simp
  moreover have "\<lfloor>fl x\<rfloor> \<le> n" using fn by (simp add: floor_le_iff)
  ultimately show ?thesis using pos by simp
qed

lemma int_div_float_eq:
  assumes "0 \<le> n" "n < 2 ^ 53" "a \<noteq> 0" "0 \<le> fl (of_int n / a)" "fl (of_int n / a) < 2 ^ 53"
  shows "int_div_float n a = Inr \<lfloor>fl (of_int n / a)\<rfloor>"
  using assms(3) int_of_float_floor[OF assms(4,5)] float_of_int_exact[OF assms(1,2)]
  by (simp add: int_div_float_def and_then_def float_div_def)

lemma int_times_float_eq:
  assumes "0 \<le> n" "n < 2 ^ 53" "0 \<le> fl (of_int n * a)" "fl (of_int n * a) < 2 ^ 53"
  shows "int_times_float n a = Inr \<lfloor>fl (of_int n * a)\<rfloor>"
  using int_of_float_floor[OF assms(3,4)] float_of_int_exact[OF assms(1,2)]
  by (simp add: int_times_float_def and_then_def float_mul_def)

lemma int_truediv_nonneg:
  assumes "int_truediv w h = Inr a" "0 \<le> w" "0 < h"
  shows "0 \<le> a"
proof -
  have "(0::rat) \<le> of_int w / of_int h" using assms(2,3) by simp
  then have "0 \<le> fl (of_int w / of_int h)" by (rule fl_nonneg)
  then show ?thesis using assms(1,3)
    by (auto simp: int_truediv_def Let_def split: if_splits)
qed

lemma content_size_bounds:
  assumes cs: "content_size w h sz = Inr (nw, nh)"
    and w: "0 \<le> w" and h: "0 < h" and s0: "0 \<le> sz" and s1: "sz < 2 ^ 31"
  shows "0 \<le> nw \<and> nw \<le> (4 * sz) div 5 \<and> 0 \<le> nh \<and> nh \<le> (4 * sz) div 5"
proof -
  define k where "k = (4 * sz) div 5"
  obtain a where a: "int_truediv w h = Inr a"
    using cs by (cases "int_truediv w h") (auto simp: content_size_def and_then_def)
  have a0: "0 \<le> a" using a w h by (rule int_truediv_nonneg)
  have t: "int_times_0_8 sz = Inr k" using s0 s1 by (simp add: int_times_0_8_eq k_def)
  have k0: "0 \<le> k" using s0 by (simp add: k_def)
  have "k \<le> sz" using s0 by (simp add: k_def)
  then have k1: "k < 2 ^ 53" using s1 by simp
  show ?thesis
  proof (cases "1 < a")
    case True
    then have "1 \<le> a" by simp
    from int_div_float_bounds[OF k0 k1 this] obtain m
      where m: "int_div_float k a = Inr m" "0 \<le> m" "m \<le> k" by blast
    from cs have "nw = k \<and> nh = m"
      using True by (simp add: content_size_def and_then_def a t m)
    then show ?thesis using m k0 by (simp add: k_def)
  next
    case False
    then have "a \<le> 1" by simp
    from int_times_float_bounds[OF k0 k1 a0 this] obtain m
      where m: "int_times_float k a = Inr m" "0 \<le> m" "m \<le> k" by blast
    from cs have "nh = k \<and> nw = m"
      using False by (simp add: content_size_def and_then_def a t m)
    then show ?thesis using m k0 by (simp add: k_def)
  qed
qed

lemma content_size_at_0:
  assumes "content_size w h 0 = Inr (nw, nh)"
  shows "nw = 0 \<and> nh = 0 \<and> h \<noteq> 0"
proof -
  have t: "int_times_0_8 0 = Inr 0" using int_times_0_8_eq[of 0] by simp
  have f0: "float_of_int 0 = Inr 0"
    by (simp add: float_of_int_def fl_def not_overflows_0)
  have i0: "int_of_float 0 = Inr 0"
    by (simp add: int_of_float_def not_overflows_0)
  have d: "int_div_float 0 a = (if a = 0 then Inl ZeroDivisionError else Inr 0)" for a
    by (simp add: int_div_float_def and_then_def f0 float_div_def fl_def i0)
  have m: "int_times_float 0 a = Inr 0" for a
    by (simp add: int_times_float_def and_then_def f0 float_mul_def fl_def i0)
  from assms show ?thesis
    by (auto simp: content_size_def and_then_def t d m int_truediv_def Let_def
        split: if_splits sum.splits)
qed

lemma content_size_zero_width:
  assumes "0 < h" "0 \<le> sz" "sz < 2 ^ 31"
  shows "content_size 0 h sz = Inr (0, (4 * sz) div 5)"
proof -
  define k where "k = (4 * sz) div 5"
  have a: "int_truediv 0 h = Inr 0"
    using assms(1) by (simp add: int_truediv_def fl_def not_overflows_0)
  have t: "int_times_0_8 sz = Inr k" using assms(2,3) by (simp add: int_times_0_8_eq k_def)
  have k0: "0 \<le> k" using assms(2) by (simp add: k_def)
  have "k \<le> sz" using assms(2) by (simp add: k_def)
  then have k1: "k < 2 ^ 53" using assms(3) by simp
  have m: "int_times_float k 0 = Inr 0"
    using float_of_int_exact[OF k0 k1]
    by (simp add: int_times_float_def and_then_def float_mul_def fl_def int_of_float_def not_overflows_0)
  show ?thesis
    by (simp add: content_size_def and_then_def a t m flip: k_def)
qed

lemma content_size_square:
  assumes w: "0 < w" and s0: "0 \<le> sz" and s1: "sz < 2 ^ 31"
  shows "content_size w w sz = Inr ((4 * sz) div 5, (4 * sz) div 5)"
proof -
  define k where "k = (4 * sz) div 5"
  have one: "fl 1 = 1" using fl_of_int[of 1] by simp
  have no: "\<not> overflows 1" by (rule not_overflows) simp_all
  have a: "int_truediv w w = Inr 1"
    using w by (simp add: int_truediv_def one no)
  have t: "int_times_0_8 sz = Inr k" using s0 s1 by (simp add: int_times_0_8_eq k_def)
  have k0: "0 \<le> k" using s0 by (simp add: k_def)
  have "k \<le> sz" using s0 by (simp add: k_def)
  then have k1: "k < 2 ^ 53" using s1 by simp
  have "(of_int k :: rat) < of_int (2 ^ 53)" using k1 by (simp only: of_int_less_iff)
  then have rk: "(of_int k :: rat) < 2 ^ 53" by simp
  have "int_of_float (of_int k) = Inr \<lfloor>(of_int k :: rat)\<rfloor>"
    using k0 rk by (intro int_of_float_floor) simp_all
  then have m: "int_times_float k 1 = Inr k"
    using float_of_int_exact[OF k0 k1] fl_of_int[OF k0 k1]
    by (simp add: int_times_float_def and_then_def float_mul_def)
  show ?thesis
    by (simp add: content_size_def and_then_def a t m flip: k_def)
qed

text \<open>Three evaluations of the scaling lines.\<close>

lemma content_size_200_100_96: "content_size 200 100 96 = Inr (76, 38)"
  by code_simp

lemma content_size_57_13_72: "content_size 57 13 72 = Inr (57, 12)"
  by code_simp

lemma content_size_100_1_48: "content_size 100 1 48 = Inr (38, 0)"
  by code_simp

section \<open>The library calls and one icon\<close>

lemma Image_new_Inr:
  assumes "Image_new w h c = Inr im"
  shows "0 \<le> w" "w < 2 ^ 31" "0 \<le> h" "h < 2 ^ 31"
    "im = \<lparr>width = w, height = h, pixel_at = (\<lambda>i j. c)\<rparr>"
    "w \<le> 536870910"
  using assms by (auto simp: Image_new_def fits_c_int_def split: if_splits)

lemma Image_new_ok:
  assumes "0 \<le> w" "w \<le> 536870910" "0 \<le> h" "h < 2 ^ 31"
  shows "Image_new w h c = Inr \<lparr>width = w, height = h, pixel_at = (\<lambda>i j. c)\<rparr>"
  using assms by (simp add: Image_new_def fits_c_int_def)

lemma resize_Inr:
  assumes "resize rs im (w, h) = Inr im'"
  shows "width im' = w" "height im' = h"
  using assms by (auto simp: resize_def split: if_splits)

lemma resize_ok:
  assumes "1 \<le> w" "w \<le> 536870910" "1 \<le> h" "h < 2 ^ 31" "(width im, height im) \<noteq> (w, h)"
  shows "resize rs im (w, h) = Inr \<lparr>width = w, height = h, pixel_at = rs im w h\<rparr>"
  using assms by (auto simp: resize_def fits_c_int_def)

lemma render_icon_Inr:
  assumes "render_icon rs bl logo sz = Inr r"
  obtains nw nh resized where
    "0 \<le> sz" "sz < 2 ^ 31"
    "content_size (width logo) (height logo) sz = Inr (nw, nh)"
    "resize rs logo (nw, nh) = Inr resized"
    "r = \<lparr>icon = paste bl \<lparr>width = sz, height = sz, pixel_at = (\<lambda>i j. (255, 255, 255, 0))\<rparr>
             resized ((sz - nw) div 2, (sz - nh) div 2),
          new_width = nw, new_height = nh,
          pos_x = (sz - nw) div 2, pos_y = (sz - nh) div 2\<rparr>"
proof -
  obtain cv where cv: "Image_new sz sz (255, 255, 255, 0) = Inr cv"
    using assms by (cases "Image_new sz sz (255, 255, 255, 0)")
      (auto simp: render_icon_def and_then_def)
  obtain nw nh where cs: "content_size (width logo) (height logo) sz = Inr (nw, nh)"
    using assms cv by (cases "content_size (width logo) (height logo) sz")
      (auto simp: render_icon_def and_then_def)
  obtain resized where rz: "resize rs logo (nw, nh) = Inr resized"
    using assms cv cs by (cases "resize rs logo (nw, nh)")
      (auto simp: render_icon_def and_then_def)
  note n = Image_new_Inr[OF cv]
  have "r = \<lparr>icon = paste bl \<lparr>width = sz, height = sz, pixel_at = (\<lambda>i j. (255, 255, 255, 0))\<rparr>
             resized ((sz - nw) div 2, (sz - nh) div 2),
          new_width = nw, new_height = nh,
          pos_x = (sz - nw) div 2, pos_y = (sz - nh) div 2\<rparr>"
    using assms by (simp add: render_icon_def and_then_def cv cs rz Let_def n(5))
  with n(1,2) cs rz show ?thesis by (rule that)
qed

lemma render_icon_ok:
  assumes "0 \<le> sz" "sz \<le> 536870910"
    and "content_size (width logo) (height logo) sz = Inr (nw, nh)"
    and "resize rs logo (nw, nh) = Inr resized"
  shows "render_icon rs bl logo sz =
     Inr \<lparr>icon = paste bl \<lparr>width = sz, height = sz, pixel_at = (\<lambda>i j. (255, 255, 255, 0))\<rparr>
             resized ((sz - nw) div 2, (sz - nh) div 2),
          new_width = nw, new_height = nh,
          pos_x = (sz - nw) div 2, pos_y = (sz - nh) div 2\<rparr>"
  using assms by (simp add: render_icon_def and_then_def Image_new_ok Let_def)

lemma render_icon_icon_size:
  assumes "render_icon rs bl logo sz = Inr r"
  shows "width (icon r) = sz" "height (icon r) = sz"
proof -
  from assms obtain nw nh resized where
    r: "r = \<lparr>icon = paste bl \<lparr>width = sz, height = sz, pixel_at = (\<lambda>i j. (255, 255, 255, 0))\<rparr>
             resized ((sz - nw) div 2, (sz - nh) div 2),
          new_width = nw, new_height = nh,
          pos_x = (sz - nw) div 2, pos_y = (sz - nh) div 2\<rparr>"
    by (rule render_icon_Inr)
  show "width (icon r) = sz" "height (icon r) = sz"
    by (simp_all add: r paste_def)
qed

lemma render_icon_content_bounds:
  assumes "render_icon rs bl logo sz = Inr r" and "0 < width logo" "0 < height logo"
  shows "0 \<le> sz" "0 \<le> new_width r" "new_width r \<le> (4 * sz) div 5"
    "0 \<le> new_height r" "new_height r \<le> (4 * sz) div 5"
    "pos_x r = (sz - new_width r) div 2" "pos_y r = (sz - new_height r) div 2"
proof -
  from assms(1) obtain nw nh resized where
    s: "0 \<le> sz" "sz < 2 ^ 31" and
    cs: "content_size (width logo) (height logo) sz = Inr (nw, nh)" and
    r: "r = \<lparr>icon = paste bl \<lparr>width = sz, height = sz, pixel_at = (\<lambda>i j. (255, 255, 255, 0))\<rparr>
             resized ((sz - nw) div 2, (sz - nh) div 2),
          new_width = nw, new_height = nh,
          pos_x = (sz - nw) div 2, pos_y = (sz - nh) div 2\<rparr>"
    by (rule render_icon_Inr)
  have w: "0 \<le> width logo" using assms(2) by simp
  note b = content_size_bounds[OF cs w assms(3) s]
  show "0 \<le> sz" by (rule s(1))
  show "0 \<le> new_width r" "new_width r \<le> (4 * sz) div 5"
    "0 \<le> new_height r" "new_height r \<le> (4 * sz) div 5"
    using b by (simp_all add: r)
  show "pos_x r = (sz - new_width r) div 2" "pos_y r = (sz - new_height r) div 2"
    by (simp_all add: r)
qed

lemma render_200_100_96:
  "render_icon rs bl \<lparr>width = 200, height = 100, pixel_at = p\<rparr> 96 =
     Inr \<lparr>icon = paste bl \<lparr>width = 96, height = 96, pixel_at = (\<lambda>i j. (255, 255, 255, 0))\<rparr>
             \<lparr>width = 76, height = 38,
              pixel_at = rs \<lparr>width = 200, height = 100, pixel_at = p\<rparr> 76 38\<rparr> (10, 29),
          new_width = 76, new_height = 38, pos_x = 10, pos_y = 29\<rparr>"
proof -
  have rz: "resize rs \<lparr>width = 200, height = 100, pixel_at = p\<rparr> (76, 38) =
      Inr \<lparr>width = 76, height = 38,
           pixel_at = rs \<lparr>width = 200, height = 100, pixel_at = p\<rparr> 76 38\<rparr>"
    by (rule resize_ok) simp_all
  have cs: "content_size (width \<lparr>width = 200, height = 100, pixel_at = p\<rparr>)
      (height \<lparr>width = 200, height = 100, pixel_at = p\<rparr>) 96 = Inr (76, 38)"
    by (simp add: content_size_200_100_96)
  show ?thesis
    using render_icon_ok[OF _ _ cs rz, of bl] by simp
qed

lemma render_icon_negative_size:
  "sz < 0 \<Longrightarrow> render_icon rs bl logo sz = Inl ValueError"
  by (simp add: render_icon_def and_then_def Image_new_def)

lemma render_icon_zero_height:
  "0 \<le> sz \<Longrightarrow> sz \<le> 536870910 \<Longrightarrow> height logo = 0 \<Longrightarrow>
    render_icon rs bl logo sz = Inl ZeroDivisionError"
  by (simp add: render_icon_def and_then_def Image_new_ok content_size_def int_truediv_def)

lemma render_icon_size_0: "isl (render_icon rs bl logo 0)"
proof (cases "content_size (width logo) (height logo) 0")
  case (Inl e)
  then show ?thesis
    by (simp add: render_icon_def and_then_def Image_new_def fits_c_int_def)
next
  case (Inr p)
  obtain nw nh where p: "p = (nw, nh)" by (cases p)
  from content_size_at_0[OF Inr[unfolded p]] have z: "nw = 0" "nh = 0" "height logo \<noteq> 0"
    by simp_all
  show ?thesis
    using z by (simp add: render_icon_def and_then_def Image_new_def fits_c_int_def Inr p resize_def)
qed

lemma render_icon_positive:
  assumes w: "0 < width logo" and h: "0 < height logo" and s0: "0 < sz"
    and s1: "sz \<le> 536870910"
    and cs: "content_size (width logo) (height logo) sz = Inr (nw, nh)"
  shows "nw = 0 \<or> nh = 0 \<Longrightarrow> render_icon rs bl logo sz = Inl ValueError"
    and "nw \<noteq> 0 \<Longrightarrow> nh \<noteq> 0 \<Longrightarrow> \<exists>r. render_icon rs bl logo sz = Inr r"
proof -
  have w': "0 \<le> width logo" and s': "0 \<le> sz" using w s0 by simp_all
  have s31: "sz < 2 ^ 31" using s1 by simp
  note b = content_size_bounds[OF cs w' h s' s31]
  have "(4 * sz) div 5 \<le> sz" using s' by simp
  then have k: "(4 * sz) div 5 \<le> 536870910" using s1 by simp
  have fw: "fits_c_int nw" and fh: "fits_c_int nh"
    using b k by (simp_all add: fits_c_int_def)
  have mw: "nw \<le> 536870910" using b k by simp
  show "render_icon rs bl logo sz = Inl ValueError" if "nw = 0 \<or> nh = 0"
  proof -
    have "(width logo, height logo) \<noteq> (nw, nh)" using that w h by auto
    then have "resize rs logo (nw, nh) = Inl ValueError"
      using that fw fh by (auto simp: resize_def)
    then show ?thesis
      using s' s1 by (simp add: render_icon_def and_then_def Image_new_ok cs)
  qed
  show "\<exists>r. render_icon rs bl logo sz = Inr r" if "nw \<noteq> 0" "nh \<noteq> 0"
  proof -
    have "1 \<le> nw" "1 \<le> nh" using that b by simp_all
    then have "\<exists>resized. resize rs logo (nw, nh) = Inr resized"
      using fw fh mw by (auto simp: resize_def)
    then obtain resized where "resize rs logo (nw, nh) = Inr resized" by blast
    from render_icon_ok[OF s' s1 cs this] show ?thesis by blast
  qed
qed

lemma render_square_logo:
  assumes "0 \<le> sz" "sz \<le> 536870910" "5 \<le> sz" "sz < w" "width logo = w" "height logo = w"
  shows "\<exists>r. render_icon rs bl logo sz = Inr r"
proof -
  have w: "0 < w" using assms by simp
  have s31: "sz < 2 ^ 31" using assms(2) by simp
  have cs: "content_size (width logo) (height logo) sz = Inr ((4 * sz) div 5, (4 * sz) div 5)"
    using content_size_square[OF w assms(1) s31] assms(5,6) by simp
  have k: "(4 * sz) div 5 \<le> sz" "1 \<le> (4 * sz) div 5" using assms(1,3) by simp_all
  have "resize rs logo ((4 * sz) div 5, (4 * sz) div 5) =
      Inr \<lparr>width = (4 * sz) div 5, height = (4 * sz) div 5,
        pixel_at = rs logo ((4 * sz) div 5) ((4 * sz) div 5)\<rparr>"
    using k assms by (intro resize_ok) auto
  from render_icon_ok[OF assms(1,2) cs this] show ?thesis by blast
qed

section \<open>The scaling rule: the script against exact arithmetic\<close>

text \<open>Quotient by a rounded aspect ratio: the window around the exact quotient.\<close>

lemma quotient_window:
  fixes a rk rw rh rF :: rat
  assumes a1: "(1 - 1 / 2 ^ 53) * (rw / rh) \<le> a" and a2: "a \<le> (1 + 1 / 2 ^ 53) * (rw / rh)"
    and rh: "1 \<le> rh" and rw: "1 \<le> rw" "rw \<le> 2 ^ 20"
    and rF: "0 \<le> rF" "rF + 1 \<le> 2 ^ 20" and rk: "0 \<le> rk"
    and lo: "rF * rw \<le> rk * rh" and hi: "rk * rh \<le> rF * rw + rw - 1"
  shows "rF - 1 \<le> rk / a" and "rk / a \<le> rF + 1 - 1 / 2 ^ 21"
    and "rF * rw + 1 \<le> rk * rh \<Longrightarrow> rF \<le> rk / a"
proof -
  define P where "P = rF * rw"
  define Q where "Q = rk * rh"
  have rh0: "0 < rh" and rw0: "0 < rw" using rh rw by simp_all
  have x0: "0 < rw / rh" using rh0 rw0 by simp
  have a0: "0 < a"
  proof -
    have "0 < (1 - 1 / 2 ^ 53) * (rw / rh)" using x0 by simp
    then show ?thesis using a1 by linarith
  qed
  have P0: "0 \<le> P" using rF rw0 by (simp add: P_def)
  have "(rF + 1) * rw \<le> 2 ^ 20 * rw" using rF(2) rw0 by (intro mult_right_mono) auto
  then have P1: "P + rw \<le> 1048576 * rw" by (simp add: P_def algebra_simps)
  have PQ: "P \<le> Q" "Q \<le> P + rw - 1" using lo hi by (simp_all add: P_def Q_def)
  have rw1: "rw \<le> 1048576" using rw(2) by simp
  \<comment> \<open>upper bound\<close>
  have "Q \<le> (1 - 1 / 2 ^ 53) * (P + rw - rw / 2 ^ 21)"
    using PQ P0 P1 rw1 rw0 by simp
  also have "P + rw - rw / 2 ^ 21 = (rF + 1 - 1 / 2 ^ 21) * rw"
    by (simp add: P_def algebra_simps)
  also have "(1 - 1 / 2 ^ 53) * ((rF + 1 - 1 / 2 ^ 21) * rw) =
      (rF + 1 - 1 / 2 ^ 21) * ((1 - 1 / 2 ^ 53) * rw)"
    by (rule mult.left_commute)
  finally have "rk * rh \<le> (rF + 1 - 1 / 2 ^ 21) * ((1 - 1 / 2 ^ 53) * rw)"
    unfolding Q_def .
  then have "rk \<le> (rF + 1 - 1 / 2 ^ 21) * ((1 - 1 / 2 ^ 53) * rw) / rh"
    using rh0 by (simp add: pos_le_divide_eq)
  then have "rk \<le> (rF + 1 - 1 / 2 ^ 21) * ((1 - 1 / 2 ^ 53) * (rw / rh))" by simp
  also have "\<dots> \<le> (rF + 1 - 1 / 2 ^ 21) * a"
    using a1 rF(1) by (intro mult_left_mono) auto
  finally show "rk / a \<le> rF + 1 - 1 / 2 ^ 21"
    using a0 by (simp add: pos_divide_le_eq)
  \<comment> \<open>lower bounds\<close>
  have low: "c \<le> rk / a" if c: "0 \<le> c" and q: "(1 + 1 / 2 ^ 53) * (c * rw) \<le> Q" for c
  proof -
    have "c * a \<le> c * ((1 + 1 / 2 ^ 53) * (rw / rh))"
      using a2 c by (intro mult_left_mono) auto
    also have "\<dots> = (1 + 1 / 2 ^ 53) * (c * rw) / rh" by simp
    also have "\<dots> \<le> Q / rh" using q rh0 by (intro divide_right_mono) auto
    also have "\<dots> = rk" using rh0 by (simp add: Q_def)
    finally show ?thesis using a0 by (simp add: pos_le_divide_eq)
  qed
  show "rF - 1 \<le> rk / a"
  proof (cases "1 \<le> rF")
    case True
    have "(rF - 1) * rw = P - rw" by (simp add: P_def algebra_simps)
    moreover have "(1 + 1 / 2 ^ 53) * (P - rw) \<le> Q" using PQ P0 P1 rw0 by simp
    ultimately show ?thesis using True by (intro low) auto
  next
    case False
    have "0 \<le> rk / a" using rk a0 by simp
    then show ?thesis using False by linarith
  qed
  show "rF \<le> rk / a" if "rF * rw + 1 \<le> rk * rh"
  proof -
    have "P + 1 \<le> Q" using that by (simp add: P_def Q_def)
    then have "(1 + 1 / 2 ^ 53) * P \<le> Q" using P0 P1 rw1 by simp
    then show ?thesis using rF(1) by (intro low) (auto simp: P_def)
  qed
qed

text \<open>Product with a rounded aspect ratio: the window around the exact product.\<close>

lemma product_window:
  fixes a rk rw rh rF :: rat
  assumes a1: "(1 - 1 / 2 ^ 53) * (rw / rh) \<le> a" and a2: "a \<le> (1 + 1 / 2 ^ 53) * (rw / rh)"
    and rw: "1 \<le> rw" and rh: "1 \<le> rh" "rh \<le> 2 ^ 20"
    and rF: "0 \<le> rF" "rF + 1 \<le> 2 ^ 20" and rk: "0 \<le> rk"
    and lo: "rF * rh \<le> rk * rw" and hi: "rk * rw \<le> rF * rh + rh - 1"
  shows "rF - 1 \<le> rk * a" and "rk * a \<le> rF + 1 - 1 / 2 ^ 21"
    and "rF * rh + 1 \<le> rk * rw \<Longrightarrow> rF \<le> rk * a"
proof -
  define P where "P = rF * rh"
  define Q where "Q = rk * rw"
  have rh0: "0 < rh" and rw0: "0 < rw" using rh rw by simp_all
  have a0: "0 \<le> a"
  proof -
    have "0 \<le> (1 - 1 / 2 ^ 53) * (rw / rh)" using rh0 rw0 by simp
    then show ?thesis using a1 by linarith
  qed
  have P0: "0 \<le> P" using rF rh0 by (simp add: P_def)
  have "(rF + 1) * rh \<le> 2 ^ 20 * rh" using rF(2) rh0 by (intro mult_right_mono) auto
  then have P1: "P + rh \<le> 1048576 * rh" by (simp add: P_def algebra_simps)
  have PQ: "P \<le> Q" "Q \<le> P + rh - 1" using lo hi by (simp_all add: P_def Q_def)
  have rh1: "rh \<le> 1048576" using rh(2) by simp
  have ka: "rk * ((1 + c) * (rw / rh)) = (1 + c) * Q / rh" for c
    by (simp add: Q_def)
  \<comment> \<open>upper bound\<close>
  have "rk * a \<le> rk * ((1 + 1 / 2 ^ 53) * (rw / rh))"
    using a2 rk by (intro mult_left_mono) auto
  also have "\<dots> = (1 + 1 / 2 ^ 53) * Q / rh" by (rule ka)
  also have "\<dots> \<le> (P + rh - rh / 2 ^ 21) / rh"
  proof (intro divide_right_mono)
    show "(1 + 1 / 2 ^ 53) * Q \<le> P + rh - rh / 2 ^ 21"
      using PQ P0 P1 rh1 rh0 by simp
    show "0 \<le> rh" using rh0 by simp
  qed
  also have "\<dots> = rF + 1 - 1 / 2 ^ 21"
    using rh0 by (simp add: P_def field_simps)
  finally show "rk * a \<le> rF + 1 - 1 / 2 ^ 21" .
  \<comment> \<open>lower bounds\<close>
  have low: "c \<le> rk * a" if q: "c * rh \<le> (1 - 1 / 2 ^ 53) * Q" for c
  proof -
    have "c = c * rh / rh" using rh0 by simp
    also have "\<dots> \<le> (1 - 1 / 2 ^ 53) * Q / rh"
      using q rh0 by (intro divide_right_mono) auto
    also have "\<dots> = rk * ((1 - 1 / 2 ^ 53) * (rw / rh))" by (simp add: Q_def)
    also have "\<dots> \<le> rk * a" using a1 rk by (intro mult_left_mono) auto
    finally show ?thesis .
  qed
  show "rF - 1 \<le> rk * a"
  proof (rule low)
    have "(rF - 1) * rh = P - rh" by (simp add: P_def algebra_simps)
    moreover have "P - rh \<le> (1 - 1 / 2 ^ 53) * Q" using PQ P0 P1 rh0 by simp
    ultimately show "(rF - 1) * rh \<le> (1 - 1 / 2 ^ 53) * Q" by simp
  qed
  show "rF \<le> rk * a" if "rF * rh + 1 \<le> rk * rw"
  proof (rule low)
    have "P + 1 \<le> Q" using that by (simp add: P_def Q_def)
    then have "P \<le> (1 - 1 / 2 ^ 53) * Q" using PQ P0 P1 rh1 by simp
    then show "rF * rh \<le> (1 - 1 / 2 ^ 53) * Q" by (simp add: P_def)
  qed
qed

lemma floor_fl_in_window:
  assumes q0: "0 \<le> q" and lo: "of_int F - 1 \<le> q" and hi: "q \<le> of_int F + 1 - 1 / 2 ^ 21"
    and F0: "0 \<le> F" and F1: "F + 1 \<le> 2 ^ 20"
  shows "0 \<le> fl q" and "fl q < 2 ^ 53" and "F - 1 \<le> \<lfloor>fl q\<rfloor>" and "\<lfloor>fl q\<rfloor> \<le> F"
    and "of_int F \<le> q \<Longrightarrow> \<lfloor>fl q\<rfloor> = F"
proof -
  have "(of_int (F + 1) :: rat) \<le> of_int (2 ^ 20)" using F1 by (simp only: of_int_le_iff)
  then have rF: "(of_int F :: rat) + 1 \<le> 1048576" by simp
  have qs: "q < 2 ^ 20" using hi rF by simp
  then have qs': "q < 2 ^ 53" by simp
  show f0: "0 \<le> fl q" using q0 by (rule fl_nonneg)
  have up: "fl q \<le> of_int ((F + 1) * 2 ^ 21 - 1) * 2 powi (- 21)"
  proof (cases "q = 0")
    case True
    have "(0::rat) \<le> of_int F" using F0 by simp
    then show ?thesis by (simp add: True fl_def power_int_minus field_simps)
  next
    case False
    with q0 have qp: "0 < q" by simp
    have "ilog2 q < 20" using qp qs ilog2_less[of q 20] by simp
    moreover have "q \<le> of_int ((F + 1) * 2 ^ 21 - 1) * 2 powi (- 21)"
      using hi by (simp add: power_int_minus field_simps)
    ultimately show ?thesis using qp by (intro fl_le_grid) auto
  qed
  then have lt: "fl q < of_int F + 1" by (simp add: power_int_minus field_simps)
  then show "fl q < 2 ^ 53" using rF by simp
  show le: "\<lfloor>fl q\<rfloor> \<le> F" using lt by (simp add: floor_le_iff)
  have "of_int (F - 1) \<le> q" using lo by simp
  then have "of_int (F - 1) \<le> fl q" using q0 qs' by (intro fl_ge_int)
  then show "F - 1 \<le> \<lfloor>fl q\<rfloor>" by (simp add: le_floor_iff)
  show "\<lfloor>fl q\<rfloor> = F" if "of_int F \<le> q"
  proof -
    have "of_int F \<le> fl q" using q0 qs' that by (intro fl_ge_int)
    then have "F \<le> \<lfloor>fl q\<rfloor>" by (simp add: le_floor_iff)
    with le show ?thesis by simp
  qed
qed

lemma div_facts:
  fixes n d :: int
  assumes "0 < d" "0 \<le> n"
  shows "0 \<le> n div d" and "n div d * d \<le> n" and "n \<le> n div d * d + d - 1"
    and "\<not> d dvd n \<Longrightarrow> n div d * d + 1 \<le> n"
proof -
  have m: "0 \<le> n mod d" "n mod d < d" using assms(1) by simp_all
  have e: "n = n div d * d + n mod d" by simp
  show "0 \<le> n div d" using assms by (simp add: pos_imp_zdiv_nonneg_iff)
  show "n div d * d \<le> n" using m e by linarith
  show "n \<le> n div d * d + d - 1" using m e by linarith
  show "n div d * d + 1 \<le> n" if "\<not> d dvd n"
  proof -
    have "n mod d \<noteq> 0" using that by (simp add: dvd_eq_mod_eq_0)
    with m have "1 \<le> n mod d" by simp
    with e show ?thesis by linarith
  qed
qed

lemma spec_content_size_eq:
  assumes "0 < w" "0 < h"
  shows "spec_content_size w h sz =
    (if h < w then ((4 * sz) div 5, ((4 * sz) div 5 * h) div w)
     else (((4 * sz) div 5 * w) div h, (4 * sz) div 5))"
proof -
  define k where "k = (4 * sz) div 5"
  have rh: "(0::rat) < of_int h" and rw: "(0::rat) < of_int w" using assms by simp_all
  have c: "(1 < (of_int w / of_int h :: rat)) = (h < w)"
    using rh by (simp add: pos_less_divide_eq)
  have "(of_int k :: rat) / (of_int w / of_int h) = of_int (k * h) / of_int w" by simp
  then have q: "\<lfloor>(of_int k :: rat) / (of_int w / of_int h)\<rfloor> = (k * h) div w"
    by (simp only: floor_divide_of_int_eq)
  have "(of_int k :: rat) * (of_int w / of_int h) = of_int (k * w) / of_int h" by simp
  then have p: "\<lfloor>(of_int k :: rat) * (of_int w / of_int h)\<rfloor> = (k * w) div h"
    by (simp only: floor_divide_of_int_eq)
  show ?thesis
    unfolding spec_content_size_def Let_def floor_80_percent c k_def[symmetric] q p ..
qed

lemma aspect_rounded:
  assumes w: "0 < w" "w < 2 ^ 20" and h: "0 < h" "h < 2 ^ 20"
  defines "x \<equiv> (of_int w / of_int h :: rat)"
  shows "int_truediv w h = Inr (fl x)"
    and "(1 - 1 / 2 ^ 53) * x \<le> fl x" and "fl x \<le> (1 + 1 / 2 ^ 53) * x"
    and "(1 < fl x) = (h < w)"
proof -
  have "(of_int w :: rat) < of_int (2 ^ 20)" using w(2) by (simp only: of_int_less_iff)
  then have rw: "(0::rat) < of_int w" "(of_int w :: rat) < 1048576" using w(1) by simp_all
  have "(of_int h :: rat) < of_int (2 ^ 20)" using h(2) by (simp only: of_int_less_iff)
  then have rh: "(0::rat) < of_int h" "(of_int h :: rat) < 1048576" using h(1) by simp_all
  have "(of_int 1 :: rat) \<le> of_int w" using w(1) by simp
  then have rw1: "(1::rat) \<le> of_int w" by simp
  have "(of_int 1 :: rat) \<le> of_int h" using h(1) by simp
  then have rh1: "(1::rat) \<le> of_int h" by simp
  have x0: "0 < x" using rw rh by (simp add: x_def)
  have "1 / 1048576 \<le> x"
  proof -
    have "of_int h \<le> 1048576 * (of_int w :: rat)" using rh(2) rw1 by linarith
    then show ?thesis using rh(1) by (simp add: x_def pos_le_divide_eq)
  qed
  then have "2 powi (- 20) \<le> x" by (simp add: power_int_minus)
  then have "- 20 \<le> ilog2 x" using x0 by (intro ilog2_ge)
  then have n: "- 1022 \<le> ilog2 x" by simp
  show r1: "(1 - 1 / 2 ^ 53) * x \<le> fl x" and r2: "fl x \<le> (1 + 1 / 2 ^ 53) * x"
    using fl_rel_error[OF x0 n] by simp_all
  have xu: "x \<le> 1048576"
  proof -
    have "of_int w \<le> 1048576 * (of_int h :: rat)" using rw(2) rh1 by linarith
    then show ?thesis using rh(1) by (simp add: x_def pos_divide_le_eq)
  qed
  have f0: "0 \<le> fl x" using x0 by (intro fl_nonneg) simp
  have "fl x \<le> 2 * x" using r2 x0 by simp
  then have "fl x < 2 ^ 53" using xu by simp
  then have "\<not> overflows (fl x)" using f0 by (intro not_overflows)
  then show "int_truediv w h = Inr (fl x)"
    using h(1) by (simp add: int_truediv_def x_def)
  show "(1 < fl x) = (h < w)"
  proof (cases "h < w")
    case True
    then have "h + 1 \<le> w" by simp
    then have "(of_int (h + 1) :: rat) \<le> of_int w" by (simp only: of_int_le_iff)
    then have "(of_int h :: rat) + 1 \<le> x * of_int h" using rh(1) by (simp add: x_def)
    moreover have "(1 - 1 / 2 ^ 53) * x * of_int h \<le> fl x * of_int h"
      using r1 rh(1) by (intro mult_right_mono) auto
    moreover have "(1 - 1 / 2 ^ 53) * x * of_int h = x * of_int h - x * of_int h / 2 ^ 53"
      by (simp add: algebra_simps)
    moreover have "x * of_int h < 1048576" using rw(2) rh(1) by (simp add: x_def)
    ultimately have "of_int h < fl x * of_int h" by simp
    then have "1 < fl x" using rh(1) by simp
    then show ?thesis using True by simp
  next
    case False
    then have "w \<le> h" by simp
    then have "(of_int w :: rat) \<le> of_int h" by (simp only: of_int_le_iff)
    then have "x \<le> of_int 1" using rh(1) by (simp add: x_def pos_divide_le_eq)
    then have "fl x \<le> of_int 1" using x0 by (intro fl_le_int) auto
    then show ?thesis using False by simp
  qed
qed

text \<open>
  For sources of fewer than \<open>2^20\<close> pixels a side and sizes below \<open>2^20\<close>, the script's
  content size is that of the exact rule on the side scaled to 80 percent, and on the
  other side it is the exact floor or, only when the exact quotient or product is an
  integer, one less.
\<close>

theorem content_size_exact_or_one_short:
  assumes w: "0 < w" "w < 2 ^ 20" and h: "0 < h" "h < 2 ^ 20" and s: "0 \<le> sz" "sz < 2 ^ 20"
  shows "\<exists>nw nh. content_size w h sz = Inr (nw, nh) \<and>
     (case spec_content_size w h sz of (sw, sh) \<Rightarrow>
        if h < w then nw = sw \<and> (nh = sh \<or> (w dvd nw * h \<and> nh = sh - 1))
        else nh = sh \<and> (nw = sw \<or> (h dvd nh * w \<and> nw = sw - 1)))"
proof -
  define k where "k = (4 * sz) div 5"
  define x :: rat where "x = of_int w / of_int h"
  define a where "a = fl x"
  note asp = aspect_rounded[OF w h, folded x_def, folded a_def]
  have k0: "0 \<le> k" and ks: "k \<le> sz" using s(1) by (simp_all add: k_def)
  have k1: "k < 2 ^ 20" using ks s(2) by simp
  have k53: "k < 2 ^ 53" using k1 by simp
  have t: "int_times_0_8 sz = Inr k" using s by (simp add: int_times_0_8_eq k_def)
  have rk0: "(0::rat) \<le> of_int k" using k0 by simp
  have rw1: "(1::rat) \<le> of_int w" using w(1) by simp
  have rh1: "(1::rat) \<le> of_int h" using h(1) by simp
  have "(of_int w :: rat) \<le> of_int (2 ^ 20)" using w(2) by simp
  then have rw2: "(of_int w :: rat) \<le> 2 ^ 20" by simp
  have "(of_int h :: rat) \<le> of_int (2 ^ 20)" using h(2) by simp
  then have rh2: "(of_int h :: rat) \<le> 2 ^ 20" by simp
  show ?thesis
  proof (cases "h < w")
    case True
    define F where "F = (k * h) div w"
    have kh: "0 \<le> k * h" using k0 h(1) by simp
    note d = div_facts[OF w(1) kh, folded F_def]
    have "k * h \<le> k * w" using True k0 by (intro mult_left_mono) auto
    then have "F * w \<le> k * w" using d(2) by simp
    then have Fk: "F \<le> k" using w(1) by simp
    have F1: "F + 1 \<le> 2 ^ 20" using Fk k1 by simp
    have "(of_int (F + 1) :: rat) \<le> of_int (2 ^ 20)" using F1 by (simp only: of_int_le_iff)
    then have rF1: "(of_int F :: rat) + 1 \<le> 2 ^ 20" by simp
    have rF0: "(0::rat) \<le> of_int F" using d(1) by simp
    have "(of_int (F * w) :: rat) \<le> of_int (k * h)" using d(2) by (simp only: of_int_le_iff)
    then have lo: "(of_int F :: rat) * of_int w \<le> of_int k * of_int h" by simp
    have "(of_int (k * h) :: rat) \<le> of_int (F * w + w - 1)" using d(3) by (simp only: of_int_le_iff)
    then have hi: "(of_int k :: rat) * of_int h \<le> of_int F * of_int w + of_int w - 1" by simp
    note qw = quotient_window[OF asp(2,3)[unfolded x_def] rh1 rw1 rw2 rF0 rF1 rk0 lo hi]
    define q where "q = (of_int k :: rat) / a"
    have a1: "1 < a" using asp(4) True by simp
    have q0: "0 \<le> q" using rk0 a1 by (simp add: q_def)
    note fw = floor_fl_in_window[OF q0 qw(1)[folded q_def] qw(2)[folded q_def] d(1) F1]
    have a0: "a \<noteq> 0" using a1 by simp
    have dv: "int_div_float k a = Inr \<lfloor>fl q\<rfloor>"
      unfolding q_def using k0 k53 a0 fw(1,2)[unfolded q_def] by (rule int_div_float_eq)
    have cs: "content_size w h sz = Inr (k, \<lfloor>fl q\<rfloor>)"
      using a1 by (simp add: content_size_def and_then_def asp(1) t dv)
    have sp: "spec_content_size w h sz = (k, F)"
      using True by (simp add: spec_content_size_eq[OF w(1) h(1)] k_def F_def)
    have "\<lfloor>fl q\<rfloor> = F \<or> (w dvd k * h \<and> \<lfloor>fl q\<rfloor> = F - 1)"
    proof (cases "w dvd k * h")
      case True
      then show ?thesis using fw(3,4) by auto
    next
      case False
      from d(4)[OF False] have "(of_int (F * w + 1) :: rat) \<le> of_int (k * h)"
        by (simp only: of_int_le_iff)
      then have "(of_int F :: rat) * of_int w + 1 \<le> of_int k * of_int h" by simp
      from qw(3)[OF this] have "of_int F \<le> q" by (simp add: q_def)
      then show ?thesis using fw(5) by simp
    qed
    then show ?thesis using True by (simp add: cs sp)
  next
    case False
    then have wh: "w \<le> h" by simp
    define F where "F = (k * w) div h"
    have kw: "0 \<le> k * w" using k0 w(1) by simp
    note d = div_facts[OF h(1) kw, folded F_def]
    have "k * w \<le> k * h" using wh k0 by (intro mult_left_mono) auto
    then have "F * h \<le> k * h" using d(2) by simp
    then have Fk: "F \<le> k" using h(1) by simp
    have F1: "F + 1 \<le> 2 ^ 20" using Fk k1 by simp
    have "(of_int (F + 1) :: rat) \<le> of_int (2 ^ 20)" using F1 by (simp only: of_int_le_iff)
    then have rF1: "(of_int F :: rat) + 1 \<le> 2 ^ 20" by simp
    have rF0: "(0::rat) \<le> of_int F" using d(1) by simp
    have "(of_int (F * h) :: rat) \<le> of_int (k * w)" using d(2) by (simp only: of_int_le_iff)
    then have lo: "(of_int F :: rat) * of_int h \<le> of_int k * of_int w" by simp
    have "(of_int (k * w) :: rat) \<le> of_int (F * h + h - 1)" using d(3) by (simp only: of_int_le_iff)
    then have hi: "(of_int k :: rat) * of_int w \<le> of_int F * of_int h + of_int h - 1" by simp
    note pw = product_window[OF asp(2,3)[unfolded x_def] rw1 rh1 rh2 rF0 rF1 rk0 lo hi]
    define p where "p = (of_int k :: rat) * a"
    have a1: "\<not> 1 < a" using asp(4) False by simp
    have "0 \<le> x" using w(1) h(1) by (simp add: x_def)
    then have a0: "0 \<le> a" unfolding a_def by (rule fl_nonneg)
    have p0: "0 \<le> p" using rk0 a0 by (simp add: p_def)
    note fw = floor_fl_in_window[OF p0 pw(1)[folded p_def] pw(2)[folded p_def] d(1) F1]
    have ml: "int_times_float k a = Inr \<lfloor>fl p\<rfloor>"
      unfolding p_def using k0 k53 fw(1,2)[unfolded p_def] by (rule int_times_float_eq)
    have cs: "content_size w h sz = Inr (\<lfloor>fl p\<rfloor>, k)"
      using a1 by (simp add: content_size_def and_then_def asp(1) t ml)
    have sp: "spec_content_size w h sz = (F, k)"
      using False by (simp add: spec_content_size_eq[OF w(1) h(1)] k_def F_def)
    have "\<lfloor>fl p\<rfloor> = F \<or> (h dvd k * w \<and> \<lfloor>fl p\<rfloor> = F - 1)"
    proof (cases "h dvd k * w")
      case True
      then show ?thesis using fw(3,4) by auto
    next
      case False
      from d(4)[OF False] have "(of_int (F * h + 1) :: rat) \<le> of_int (k * w)"
        by (simp only: of_int_le_iff)
      then have "(of_int F :: rat) * of_int h + 1 \<le> of_int k * of_int w" by simp
      from pw(3)[OF this] have "of_int F \<le> p" by (simp add: p_def)
      then show ?thesis using fw(5) by simp
    qed
    then show ?thesis using False by (simp add: cs sp)
  qed
qed

lemma spec_content_size_57_13_72: "spec_content_size 57 13 72 = (57, 13)"
  by code_simp

text \<open>
  C1. The specified content dimensions are those of the scaling rule in exact
  arithmetic: the side along the longer source side is \<open>floor(sz * 0.8)\<close>, the other is
  the floor of the exact quotient or product with the aspect ratio. The script computes
  the rule in floats, and the two differ. For a 57 by 13 logo at size 72 (the \<open>mipmap-hdpi\<close> entry) the exact rule gives
  57 by 13, since \<open>57 / (57 / 13) = 13\<close>; the script's quotient \<open>57 / (57 / 13)\<close> is rounded
  to a float just below 13, \<open>int\<close> truncates it, and the content is 57 by 12.
\<close>

theorem render_57x13_at_72_one_row_short:
  "(case render_icon nearest over (plain_logo 57 13) 72 of
      Inl e \<Rightarrow> False
    | Inr r \<Rightarrow> (new_width r, new_height r) = (57, 12))
   \<and> spec_content_size 57 13 72 = (57, 13)"
proof -
  have cs: "content_size (width (plain_logo 57 13)) (height (plain_logo 57 13)) 72 = Inr (57, 12)"
    by (simp add: plain_logo_def content_size_57_13_72)
  have rz: "resize nearest (plain_logo 57 13) (57, 12) =
      Inr \<lparr>width = 57, height = 12, pixel_at = nearest (plain_logo 57 13) 57 12\<rparr>"
    by (rule resize_ok) (simp_all add: plain_logo_def)
  show ?thesis
    using render_icon_ok[OF _ _ cs rz, of over]
    by (simp add: spec_content_size_57_13_72)
qed

section \<open>Failures of the renderer\<close>

text \<open>
  C10. Positive source dimensions and a positive target size do not make both content
  dimensions positive: for a 100 by 1 source and target size 48 the script computes
  \<open>new_width = 38\<close> and \<open>new_height = 0\<close>.
\<close>

theorem content_dimension_zero:
  "content_size 100 1 48 = Inr (38, 0)"
  by (rule content_size_100_1_48)

text \<open>
  C2. A source of positive width and height and a positive size do not rule out a
  failure: for a 100 by 1 source at size 48 the content size is \<open>(38, 0)\<close>, and \<open>resize\<close>
  rejects it.
\<close>

theorem render_100x1_at_48_fails:
  "0 < width (plain_logo 100 1) \<and> 0 < height (plain_logo 100 1) \<and> (0::int) < 48
   \<and> render_icon nearest over (plain_logo 100 1) 48 = Inl ValueError"
  by (simp add: render_icon_def and_then_def Image_new_def fits_c_int_def plain_logo_def
      content_size_100_1_48 resize_def)

text \<open>
  C2, as it holds of the code. The renderer has no check of its own and no error of its
  own; it fails where the interpreter or the library does:
  \<^item> a negative size is rejected by \<open>Image.new\<close> (ValueError), size 0 fails too, and so does
    every size above 536870910;
  \<^item> when \<open>Image.new\<close> returns the canvas, a source of height 0 makes the aspect division
    raise ZeroDivisionError;
  \<^item> when \<open>Image.new\<close> returns the canvas for a positive size, a source of width 0 and
    positive height gets content width 0, which \<open>resize\<close> rejects (ValueError) unless the
    source's height is already \<open>floor(sz * 0.8)\<close>;
  \<^item> when \<open>Image.new\<close> returns the canvas for a positive size and the source has positive
    width and height and content dimensions that are both at least 1, the renderer
    returns an icon.
\<close>

theorem render_icon_failures:
  "(sz < 0 \<longrightarrow> render_icon resample blend logo sz = Inl ValueError)
   \<and> (sz = 0 \<longrightarrow> isl (render_icon resample blend logo sz))
   \<and> (536870910 < sz \<longrightarrow> isl (render_icon resample blend logo sz))
   \<and> (Image_new sz sz (255, 255, 255, 0) = Inr blank \<and> height logo = 0 \<longrightarrow>
        render_icon resample blend logo sz = Inl ZeroDivisionError)
   \<and> (Image_new sz sz (255, 255, 255, 0) = Inr blank
        \<and> width logo = 0 \<and> 0 < height logo \<and> 0 < sz
        \<and> height logo \<noteq> \<lfloor>of_int sz * (8 / 10 :: rat)\<rfloor> \<longrightarrow>
        render_icon resample blend logo sz = Inl ValueError)
   \<and> (Image_new sz sz (255, 255, 255, 0) = Inr blank
        \<and> 0 < width logo \<and> 0 < height logo \<and> 0 < sz
        \<and> content_size (width logo) (height logo) sz = Inr (nw, nh)
        \<and> 1 \<le> nw \<and> 1 \<le> nh \<longrightarrow>
        isl (render_icon resample blend logo sz) = False)"
proof (intro conjI impI)
  assume "sz < 0"
  then show "render_icon resample blend logo sz = Inl ValueError"
    by (rule render_icon_negative_size)
next
  assume "sz = 0"
  then show "isl (render_icon resample blend logo sz)"
    by (simp add: render_icon_size_0)
next
  assume "536870910 < sz"
  then have "isl (Image_new sz sz (255, 255, 255, 0))"
    by (simp add: Image_new_def)
  then show "isl (render_icon resample blend logo sz)"
    by (cases "Image_new sz sz (255, 255, 255, 0)") (simp_all add: render_icon_def and_then_def)
next
  assume a: "Image_new sz sz (255, 255, 255, 0) = Inr blank \<and> height logo = 0"
  then have "Image_new sz sz (255, 255, 255, 0) = Inr blank" by simp
  note n = Image_new_Inr[OF this]
  from a n(1,6) show "render_icon resample blend logo sz = Inl ZeroDivisionError"
    by (simp add: render_icon_zero_height)
next
  assume a: "Image_new sz sz (255, 255, 255, 0) = Inr blank
        \<and> width logo = 0 \<and> 0 < height logo \<and> 0 < sz
        \<and> height logo \<noteq> \<lfloor>of_int sz * (8 / 10 :: rat)\<rfloor>"
  then have "Image_new sz sz (255, 255, 255, 0) = Inr blank" by simp
  note n = Image_new_Inr[OF this]
  have s: "0 \<le> sz" "sz < 2 ^ 31" and h: "0 < height logo" using a n by simp_all
  have cs: "content_size (width logo) (height logo) sz = Inr (0, (4 * sz) div 5)"
    using a content_size_zero_width[OF h s] by simp
  have "(4 * sz) div 5 \<le> sz" using s by simp
  then have k: "(4 * sz) div 5 < 2 ^ 31" "0 \<le> (4 * sz) div 5" using s by simp_all
  have ne: "height logo \<noteq> (4 * sz) div 5" using a unfolding floor_80_percent by blast
  have "resize resample logo (0, (4 * sz) div 5) = Inl ValueError"
    using ne k by (auto simp: resize_def fits_c_int_def)
  then show "render_icon resample blend logo sz = Inl ValueError"
    using n(1,6) by (simp add: render_icon_def and_then_def Image_new_ok cs)
next
  assume a: "Image_new sz sz (255, 255, 255, 0) = Inr blank
        \<and> 0 < width logo \<and> 0 < height logo \<and> 0 < sz
        \<and> content_size (width logo) (height logo) sz = Inr (nw, nh)
        \<and> 1 \<le> nw \<and> 1 \<le> nh"
  then have "Image_new sz sz (255, 255, 255, 0) = Inr blank" by simp
  note m = Image_new_Inr[OF this]
  from a have p: "0 < width logo" "0 < height logo" "0 < sz"
    and cs: "content_size (width logo) (height logo) sz = Inr (nw, nh)"
    and n: "nw \<noteq> 0" "nh \<noteq> 0" by simp_all
  from render_icon_positive(2)[OF p m(6) cs n]
  obtain r where "render_icon resample blend logo sz = Inr r" by blast
  then show "isl (render_icon resample blend logo sz) = False" by simp
qed

text \<open>
  Instances: size -1, size 0, size 536870911, a 200 by 0 source, a 0 by 100 source, and
  the 200 by 100 source at 96, which renders.
\<close>

theorem render_icon_failures_witness:
  "render_icon nearest over (plain_logo 200 100) (- 1) = Inl ValueError
   \<and> isl (render_icon nearest over (plain_logo 200 100) 0)
   \<and> isl (render_icon nearest over (plain_logo 200 100) 536870911)
   \<and> render_icon nearest over (plain_logo 200 0) 96 = Inl ZeroDivisionError
   \<and> render_icon nearest over (plain_logo 0 100) 96 = Inl ValueError
   \<and> isl (render_icon nearest over (plain_logo 200 100) 96) = False"
proof -
  have cv: "Image_new 96 96 (255, 255, 255, 0) =
      Inr \<lparr>width = 96, height = 96, pixel_at = (\<lambda>i j. (255, 255, 255, 0))\<rparr>"
    by (rule Image_new_ok) simp_all
  have a: "render_icon nearest over (plain_logo 200 100) (- 1) = Inl ValueError"
    using render_icon_failures[of "- 1" nearest over "plain_logo 200 100"] by simp
  have b: "isl (render_icon nearest over (plain_logo 200 100) 0)"
    using render_icon_failures[of 0 nearest over "plain_logo 200 100"] by simp
  have g: "isl (render_icon nearest over (plain_logo 200 100) 536870911)"
    using render_icon_failures[of 536870911 nearest over "plain_logo 200 100"] by simp
  have c: "render_icon nearest over (plain_logo 200 0) 96 = Inl ZeroDivisionError"
    using render_icon_failures[of 96 nearest over "plain_logo 200 0"] cv
    by (simp add: plain_logo_def)
  have "\<lfloor>of_int 96 * (8 / 10 :: rat)\<rfloor> = 76" using floor_80_percent[of 96] by simp
  then have d: "render_icon nearest over (plain_logo 0 100) 96 = Inl ValueError"
    using render_icon_failures[of 96 nearest over "plain_logo 0 100"] cv
    by (simp add: plain_logo_def)
  have f: "isl (render_icon nearest over (plain_logo 200 100) 96) = False"
    using render_icon_failures[of 96 nearest over "plain_logo 200 100" _ 76 38] cv
    by (simp add: plain_logo_def content_size_200_100_96)
  from a b g c d f show ?thesis by blast
qed

section \<open>The canvas and the pasted rectangle\<close>

text \<open>
  C3. Every pixel of a returned icon that lies outside the pasted rectangle
  \<open>[x, x + new_width) \<times> [y, y + new_height)\<close> has alpha 0: the canvas is allocated with
  alpha 0 everywhere and \<open>paste\<close> changes pixels inside the rectangle only. This holds
  for every source image and size for which the renderer returns.
\<close>

theorem outside_paste_transparent:
  assumes "render_icon resample blend logo sz = Inr r"
    and "\<not> (pos_x r \<le> i \<and> i < pos_x r + new_width r \<and> pos_y r \<le> j \<and> j < pos_y r + new_height r)"
  shows "alpha (pixel_at (icon r) i j) = 0"
proof -
  from assms(1) obtain nw nh resized where
    rz: "resize resample logo (nw, nh) = Inr resized" and
    r: "r = \<lparr>icon = paste blend \<lparr>width = sz, height = sz, pixel_at = (\<lambda>i j. (255, 255, 255, 0))\<rparr>
             resized ((sz - nw) div 2, (sz - nh) div 2),
          new_width = nw, new_height = nh,
          pos_x = (sz - nw) div 2, pos_y = (sz - nh) div 2\<rparr>"
    by (rule render_icon_Inr)
  note d = resize_Inr[OF rz]
  from assms(2) show ?thesis
    by (auto simp: r paste_def d alpha_def)
qed

text \<open>An instance: the 200 by 100 logo at size 96, and the pixel (5, 40).\<close>

theorem outside_paste_transparent_witness:
  "(case render_icon nearest over (plain_logo 200 100) 96 of
      Inl e \<Rightarrow> False
    | Inr r \<Rightarrow> \<not> (pos_x r \<le> 5 \<and> 5 < pos_x r + new_width r \<and> pos_y r \<le> 40 \<and> 40 < pos_y r + new_height r)
        \<and> alpha (pixel_at (icon r) 5 40) = 0)"
proof -
  obtain r where r: "render_icon nearest over (plain_logo 200 100) 96 = Inr r"
    and p: "pos_x r = 10" "new_width r = 76" "pos_y r = 29" "new_height r = 38"
    by (simp add: plain_logo_def render_200_100_96)
  have h: "\<not> (pos_x r \<le> 5 \<and> 5 < pos_x r + new_width r \<and> pos_y r \<le> 40 \<and> 40 < pos_y r + new_height r)"
    by (simp add: p)
  from outside_paste_transparent[OF r h] h show ?thesis by (simp add: r)
qed

text \<open>
  C4. For a source image with positive width and height and a positive target size,
  the returned icon is \<open>sz\<close> by \<open>sz\<close> pixels and neither content dimension exceeds
  \<open>floor(sz * 0.8)\<close>, the floor of the exact product.
\<close>

theorem icon_square_content_within_80_percent:
  assumes "render_icon resample blend logo sz = Inr r"
    and "0 < width logo" and "0 < height logo" and "0 < sz"
  shows "width (icon r) = sz \<and> height (icon r) = sz
    \<and> new_width r \<le> \<lfloor>of_int sz * (8 / 10 :: rat)\<rfloor>
    \<and> new_height r \<le> \<lfloor>of_int sz * (8 / 10 :: rat)\<rfloor>"
  using render_icon_icon_size[OF assms(1)] render_icon_content_bounds[OF assms(1,2,3)]
  by (simp only: floor_80_percent simp_thms)

text \<open>An instance: the 200 by 100 logo at size 96.\<close>

theorem icon_square_content_within_80_percent_witness:
  "(case render_icon nearest over (plain_logo 200 100) 96 of
      Inl e \<Rightarrow> False
    | Inr r \<Rightarrow> 0 < width (plain_logo 200 100) \<and> 0 < height (plain_logo 200 100) \<and> (0::int) < 96
        \<and> width (icon r) = 96 \<and> height (icon r) = 96
        \<and> new_width r \<le> \<lfloor>of_int 96 * (8 / 10 :: rat)\<rfloor>
        \<and> new_height r \<le> \<lfloor>of_int 96 * (8 / 10 :: rat)\<rfloor>)"
proof -
  obtain r where r: "render_icon nearest over (plain_logo 200 100) 96 = Inr r"
    by (simp add: plain_logo_def render_200_100_96)
  have h: "0 < width (plain_logo 200 100)" "0 < height (plain_logo 200 100)" "(0::int) < 96"
    by (simp_all add: plain_logo_def)
  from icon_square_content_within_80_percent[OF r h] h show ?thesis by (simp add: r)
qed

text \<open>
  C5. For a source image with positive width and height and a positive target size,
  the offsets are \<open>x = floor((sz - new_width) / 2)\<close> and \<open>y = floor((sz - new_height) / 2)\<close>,
  the pasted rectangle ends inside the canvas (\<open>x + new_width \<le> sz\<close>,
  \<open>y + new_height \<le> sz\<close>), and the left and right margins differ by at most one pixel.
\<close>

theorem centering_offsets_within_canvas:
  assumes "render_icon resample blend logo sz = Inr r"
    and "0 < width logo" and "0 < height logo" and "0 < sz"
  shows "pos_x r = \<lfloor>(of_int sz - of_int (new_width r)) / (2 :: rat)\<rfloor>
    \<and> pos_y r = \<lfloor>(of_int sz - of_int (new_height r)) / (2 :: rat)\<rfloor>
    \<and> pos_x r + new_width r \<le> sz \<and> pos_y r + new_height r \<le> sz
    \<and> \<bar>pos_x r - (sz - new_width r - pos_x r)\<bar> \<le> 1"
proof -
  note b = render_icon_content_bounds[OF assms(1,2,3)]
  have fx: "\<lfloor>(of_int sz - of_int (new_width r)) / (2 :: rat)\<rfloor> = (sz - new_width r) div 2"
  proof -
    have "(of_int sz - of_int (new_width r)) / (2 :: rat) = of_int (sz - new_width r) / of_int 2"
      by simp
    then show ?thesis by (simp only: floor_divide_of_int_eq)
  qed
  have fy: "\<lfloor>(of_int sz - of_int (new_height r)) / (2 :: rat)\<rfloor> = (sz - new_height r) div 2"
  proof -
    have "(of_int sz - of_int (new_height r)) / (2 :: rat) = of_int (sz - new_height r) / of_int 2"
      by simp
    then show ?thesis by (simp only: floor_divide_of_int_eq)
  qed
  have k: "(4 * sz) div 5 \<le> sz" using b(1) by simp
  have w: "new_width r \<le> sz" using b(3) k by simp
  have h: "new_height r \<le> sz" using b(5) k by simp
  have "pos_x r + new_width r \<le> sz" using w by (simp add: b(6))
  moreover have "pos_y r + new_height r \<le> sz" using h by (simp add: b(7))
  moreover have "\<bar>pos_x r - (sz - new_width r - pos_x r)\<bar> \<le> 1" by (simp add: b(6))
  ultimately show ?thesis by (simp add: fx fy b(6,7))
qed

text \<open>An instance: the 200 by 100 logo at size 96.\<close>

theorem centering_offsets_within_canvas_witness:
  "(case render_icon nearest over (plain_logo 200 100) 96 of
      Inl e \<Rightarrow> False
    | Inr r \<Rightarrow> 0 < width (plain_logo 200 100) \<and> 0 < height (plain_logo 200 100) \<and> (0::int) < 96
        \<and> pos_x r = \<lfloor>(of_int 96 - of_int (new_width r)) / (2 :: rat)\<rfloor>
        \<and> pos_y r = \<lfloor>(of_int 96 - of_int (new_height r)) / (2 :: rat)\<rfloor>
        \<and> pos_x r + new_width r \<le> 96 \<and> pos_y r + new_height r \<le> 96
        \<and> \<bar>pos_x r - (96 - new_width r - pos_x r)\<bar> \<le> 1)"
proof -
  obtain r where r: "render_icon nearest over (plain_logo 200 100) 96 = Inr r"
    by (simp add: plain_logo_def render_200_100_96)
  have h: "0 < width (plain_logo 200 100)" "0 < height (plain_logo 200 100)" "(0::int) < 96"
    by (simp_all add: plain_logo_def)
  note t = centering_offsets_within_canvas[OF r h]
  show ?thesis unfolding r sum.case using h t by blast
qed

text \<open>
  C6. For a source image of width 200 and height 100 and target size 96, the renderer
  computes \<open>new_width = 76\<close>, \<open>new_height = 38\<close>, \<open>x = 10\<close> and \<open>y = 29\<close>, whatever the
  pixels of the source, the resampling and the blending are.
\<close>

theorem render_200x100_at_96:
  "(case render_icon resample blend \<lparr>width = 200, height = 100, pixel_at = p\<rparr> 96 of
      Inl e \<Rightarrow> False
    | Inr r \<Rightarrow> new_width r = 76 \<and> new_height r = 38 \<and> pos_x r = 10 \<and> pos_y r = 29)"
  by (simp add: render_200_100_96)

section \<open>The iOS script against the Android script\<close>

text \<open>
  C9. The loop body of the iOS script computes what the loop body of the Android script
  computes: for every source image and every size, the same failure or the same
  \<open>new_width\<close>, \<open>new_height\<close>, \<open>x\<close>, \<open>y\<close> and icon.
\<close>

theorem ios_render_icon_eq_render_icon:
  "ios_render_icon resample blend logo sz = render_icon resample blend logo sz"
proof -
  have "ios_content_size w h s = content_size w h s" for w h s
    by (simp add: ios_content_size_def content_size_def)
  then show ?thesis by (simp add: ios_render_icon_def render_icon_def)
qed

section \<open>A run of the Android generator\<close>

text \<open>
  C8. A run of the Android generator that ends without an exception has saved exactly
  five files, in the order of the table: \<open>ic_launcher.png\<close> under \<open>mipmap-mdpi\<close>,
  \<open>mipmap-hdpi\<close>, \<open>mipmap-xhdpi\<close>, \<open>mipmap-xxhdpi\<close> and \<open>mipmap-xxxhdpi\<close> of the
  resource directory, of 48, 72, 96, 144 and 192 pixels in width and in height.
\<close>

theorem android_run_saves_five_launcher_icons:
  assumes "create_app_icons_from_logo resample blend logo = (saved, None)"
  shows "map (\<lambda>(p, im). (p, width im, height im)) saved =
    [(''/Users/admin/development/BMS App/android/app/src/main/res/mipmap-mdpi/ic_launcher.png'', 48, 48),
     (''/Users/admin/development/BMS App/android/app/src/main/res/mipmap-hdpi/ic_launcher.png'', 72, 72),
     (''/Users/admin/development/BMS App/android/app/src/main/res/mipmap-xhdpi/ic_launcher.png'', 96, 96),
     (''/Users/admin/development/BMS App/android/app/src/main/res/mipmap-xxhdpi/ic_launcher.png'', 144, 144),
     (''/Users/admin/development/BMS App/android/app/src/main/res/mipmap-xxxhdpi/ic_launcher.png'', 192, 192)]"
proof -
  have p: "path_join (path_join base_path folder) ''ic_launcher.png'' =
      ''/Users/admin/development/BMS App/android/app/src/main/res/'' @ folder @ ''/ic_launcher.png''"
    if "folder \<in> {''mipmap-mdpi'', ''mipmap-hdpi'', ''mipmap-xhdpi'', ''mipmap-xxhdpi'', ''mipmap-xxxhdpi''}"
    for folder
    using that by (auto simp: path_join_def base_path_def)
  obtain r1 where r1: "render_icon resample blend logo 48 = Inr r1"
    using assms by (cases "render_icon resample blend logo 48")
      (simp_all add: create_app_icons_from_logo_def sizes_def)
  obtain r2 where r2: "render_icon resample blend logo 72 = Inr r2"
    using assms by (cases "render_icon resample blend logo 72")
      (simp_all add: create_app_icons_from_logo_def sizes_def r1 Let_def)
  obtain r3 where r3: "render_icon resample blend logo 96 = Inr r3"
    using assms by (cases "render_icon resample blend logo 96")
      (simp_all add: create_app_icons_from_logo_def sizes_def r1 r2 Let_def)
  obtain r4 where r4: "render_icon resample blend logo 144 = Inr r4"
    using assms by (cases "render_icon resample blend logo 144")
      (simp_all add: create_app_icons_from_logo_def sizes_def r1 r2 r3 Let_def)
  obtain r5 where r5: "render_icon resample blend logo 192 = Inr r5"
    using assms by (cases "render_icon resample blend logo 192")
      (simp_all add: create_app_icons_from_logo_def sizes_def r1 r2 r3 r4 Let_def)
  note d = render_icon_icon_size[OF r1] render_icon_icon_size[OF r2] render_icon_icon_size[OF r3]
    render_icon_icon_size[OF r4] render_icon_icon_size[OF r5]
  have "saved =
    [(path_join (path_join base_path ''mipmap-mdpi'') ''ic_launcher.png'', icon r1),
     (path_join (path_join base_path ''mipmap-hdpi'') ''ic_launcher.png'', icon r2),
     (path_join (path_join base_path ''mipmap-xhdpi'') ''ic_launcher.png'', icon r3),
     (path_join (path_join base_path ''mipmap-xxhdpi'') ''ic_launcher.png'', icon r4),
     (path_join (path_join base_path ''mipmap-xxxhdpi'') ''ic_launcher.png'', icon r5)]"
    using assms by (simp add: create_app_icons_from_logo_def sizes_def r1 r2 r3 r4 r5 Let_def)
  then show ?thesis by (simp add: d p)
qed

text \<open>An instance: the run on a 512 by 512 logo ends without an exception.\<close>

theorem android_run_saves_five_launcher_icons_witness:
  "snd (create_app_icons_from_logo nearest over (plain_logo 512 512)) = None
   \<and> map (\<lambda>(p, im). (p, width im, height im))
        (fst (create_app_icons_from_logo nearest over (plain_logo 512 512))) =
    [(''/Users/admin/development/BMS App/android/app/src/main/res/mipmap-mdpi/ic_launcher.png'', 48, 48),
     (''/Users/admin/development/BMS App/android/app/src/main/res/mipmap-hdpi/ic_launcher.png'', 72, 72),
     (''/Users/admin/development/BMS App/android/app/src/main/res/mipmap-xhdpi/ic_launcher.png'', 96, 96),
     (''/Users/admin/development/BMS App/android/app/src/main/res/mipmap-xxhdpi/ic_launcher.png'', 144, 144),
     (''/Users/admin/development/BMS App/android/app/src/main/res/mipmap-xxxhdpi/ic_launcher.png'', 192, 192)]"
proof -
  have ok: "\<exists>r. render_icon nearest over (plain_logo 512 512) sz = Inr r"
    if "sz \<in> {48, 72, 96, 144, 192}" for sz
    using that by (intro render_square_logo[where w = 512]) (auto simp: plain_logo_def)
  obtain r1 where r1: "render_icon nearest over (plain_logo 512 512) 48 = Inr r1"
    using ok[of 48] by auto
  obtain r2 where r2: "render_icon nearest over (plain_logo 512 512) 72 = Inr r2"
    using ok[of 72] by auto
  obtain r3 where r3: "render_icon nearest over (plain_logo 512 512) 96 = Inr r3"
    using ok[of 96] by auto
  obtain r4 where r4: "render_icon nearest over (plain_logo 512 512) 144 = Inr r4"
    using ok[of 144] by auto
  obtain r5 where r5: "render_icon nearest over (plain_logo 512 512) 192 = Inr r5"
    using ok[of 192] by auto
  have n: "snd (create_app_icons_from_logo nearest over (plain_logo 512 512)) = None"
    by (simp add: create_app_icons_from_logo_def sizes_def r1 r2 r3 r4 r5 Let_def)
  then have e: "create_app_icons_from_logo nearest over (plain_logo 512 512) =
      (fst (create_app_icons_from_logo nearest over (plain_logo 512 512)), None)"
    by (metis prod.collapse)
  from android_run_saves_five_launcher_icons[OF e] n show ?thesis by blast
qed

section \<open>The pixels of the drawn emblem\<close>

text \<open>
  For every size from 0 to 536870910 \<open>create_humaya_logo\<close> returns, and the returned image
  is known pixel by pixel up to the rasterisation of the ellipse: the three bars are
  white, drawn over the disc, and each bar covers its box with both end points, so that
  it is one pixel wider and one pixel higher than the difference of its coordinates.
\<close>

lemma emblem_colors_distinct:
  "orange_color \<noteq> white_color" "(0, 0, 0, 0) \<noteq> white_color" "(0, 0, 0, 0) \<noteq> orange_color"
  by (simp_all add: orange_color_def white_color_def)

lemma emblem_canvas:
  assumes "0 \<le> sz" "sz \<le> 536870910"
  shows "Image_new sz sz c = Inr \<lparr>width = sz, height = sz, pixel_at = (\<lambda>i j. c)\<rparr>"
  using assms by (simp add: Image_new_def fits_c_int_def)

lemma create_humaya_logo_negative_size:
  "sz < 0 \<Longrightarrow> create_humaya_logo covers sz = Inl ValueError"
  by (simp add: create_humaya_logo_def and_then_def Image_new_def)

lemma emblem_boxes_ordered:
  fixes sz :: int
  assumes "0 \<le> sz"
  shows "0 \<le> sz - 2 * (sz div 10)" "0 \<le> sz div 12" "0 \<le> sz div 2" "0 \<le> sz div 3"
    "0 \<le> sz div 3 - sz div 12"
proof -
  have "sz div 10 * 2 \<le> sz" using assms by linarith
  then show "0 \<le> sz - 2 * (sz div 10)" by simp
  show "0 \<le> sz div 12" "0 \<le> sz div 2" "0 \<le> sz div 3" using assms by simp_all
  have "sz div 12 \<le> sz div 3" using assms by (intro zdiv_mono2) simp_all
  then show "0 \<le> sz div 3 - sz div 12" by simp
qed

lemma and_then_Inr: "and_then (Inr x) f = f x"
  by (simp add: and_then_def)

lemma emblem_drawn:
  assumes "0 \<le> cs" "0 \<le> t" "0 \<le> hh" "0 \<le> hw" "0 \<le> hw - t"
  shows "and_then (draw_ellipse covers \<lparr>width = sz, height = sz, pixel_at = (\<lambda>i j. (0, 0, 0, 0))\<rparr>
            (mg, mg, mg + cs, mg + cs) orange_color) (\<lambda>img.
          and_then (draw_rectangle img (hx, hy, hx + t, hy + hh) white_color) (\<lambda>img.
          and_then (draw_rectangle img (hx + hw - t, hy, hx + hw, hy + hh) white_color) (\<lambda>img.
          and_then (draw_rectangle img (hx, hm, hx + hw, hm + t) white_color) (\<lambda>img.
          Inr img)))) =
    Inr \<lparr>width = sz, height = sz, pixel_at = (\<lambda>i j.
      if 0 \<le> i \<and> i < sz \<and> 0 \<le> j \<and> j < sz
        \<and> (in_box (hx, hy, hx + t, hy + hh) i j
           \<or> in_box (hx + hw - t, hy, hx + hw, hy + hh) i j
           \<or> in_box (hx, hm, hx + hw, hm + t) i j)
      then white_color
      else if 0 \<le> i \<and> i < sz \<and> 0 \<le> j \<and> j < sz
        \<and> in_box (mg, mg, mg + cs, mg + cs) i j
        \<and> covers (mg, mg, mg + cs, mg + cs) i j
      then orange_color
      else (0, 0, 0, 0))\<rparr>"
  using assms
  by (auto simp: and_then_def draw_ellipse_def draw_rectangle_def inside_def fun_eq_iff)

lemma create_humaya_logo_ok:
  assumes "0 \<le> sz" "sz \<le> 536870910"
  shows "create_humaya_logo covers sz =
    Inr \<lparr>width = sz, height = sz, pixel_at = (\<lambda>i j.
      if 0 \<le> i \<and> i < sz \<and> 0 \<le> j \<and> j < sz
        \<and> (in_box ((sz - sz div 3) div 2, (sz - sz div 2) div 2,
                     (sz - sz div 3) div 2 + sz div 12, (sz - sz div 2) div 2 + sz div 2) i j
           \<or> in_box ((sz - sz div 3) div 2 + sz div 3 - sz div 12, (sz - sz div 2) div 2,
                     (sz - sz div 3) div 2 + sz div 3, (sz - sz div 2) div 2 + sz div 2) i j
           \<or> in_box ((sz - sz div 3) div 2,
                     (sz - sz div 2) div 2 + sz div 2 div 2 - sz div 12 div 2,
                     (sz - sz div 3) div 2 + sz div 3,
                     (sz - sz div 2) div 2 + sz div 2 div 2 - sz div 12 div 2 + sz div 12) i j)
      then white_color
      else if 0 \<le> i \<and> i < sz \<and> 0 \<le> j \<and> j < sz
        \<and> in_box (sz div 10, sz div 10, sz div 10 + (sz - 2 * (sz div 10)),
                    sz div 10 + (sz - 2 * (sz div 10))) i j
        \<and> covers (sz div 10, sz div 10, sz div 10 + (sz - 2 * (sz div 10)),
                    sz div 10 + (sz - 2 * (sz div 10))) i j
      then orange_color
      else (0, 0, 0, 0))\<rparr>"
  unfolding create_humaya_logo_def Let_def emblem_canvas[OF assms] and_then_Inr
  by (rule emblem_drawn) (rule emblem_boxes_ordered[OF assms(1)])+

text \<open>
  C7, as the code behaves at size 48 (the \<open>mipmap-mdpi\<close> entry). The script returns a 48 by
  48 image, transparent outside the disc and the glyph. The disc lies in columns and rows
  4 to 44, the box handed to \<open>draw.ellipse\<close>, which has 41 pixels a side. The white pixels
  are exactly those of the three bars, whatever the ellipse covers:
  \<^item> on row 24, through the cross bar, columns 16 to 32 are white: the glyph is 17 pixels
    wide, where the specification says 16;
  \<^item> on column 16, in the left bar, rows 12 to 36 are white: the glyph is 25 pixels high,
    where the specification says 24;
  \<^item> on row 12 the white columns are 16 to 20 and 28 to 32, and on column 24 the white
    rows are 22 to 26: each stroke is 5 pixels thick, where the specification says 4.
\<close>

theorem emblem_48_glyph_17_by_25:
  "\<exists>img. create_humaya_logo covers 48 = Inr img
     \<and> width img = 48 \<and> height img = 48
     \<and> pixel_at img = (\<lambda>i j.
          if in_box (16, 12, 20, 36) i j \<or> in_box (28, 12, 32, 36) i j
             \<or> in_box (16, 22, 32, 26) i j then white_color
          else if in_box (4, 4, 44, 44) i j \<and> covers (4, 4, 44, 44) i j then orange_color
          else (0, 0, 0, 0))
     \<and> {i. pixel_at img i 24 = white_color} = {16..32}
     \<and> card {i. pixel_at img i 24 = white_color} = 17
     \<and> {j. pixel_at img 16 j = white_color} = {12..36}
     \<and> card {j. pixel_at img 16 j = white_color} = 25
     \<and> {i. pixel_at img i 12 = white_color} = {16..20} \<union> {28..32}
     \<and> {j. pixel_at img 24 j = white_color} = {22..26}
     \<and> card {j. pixel_at img 24 j = white_color} = 5"
proof -
  define img where "img = \<lparr>width = 48, height = 48, pixel_at = (\<lambda>i j.
          if in_box (16, 12, 20, 36) i j \<or> in_box (28, 12, 32, 36) i j
             \<or> in_box (16, 22, 32, 26) i j then white_color
          else if in_box (4, 4, 44, 44) i j \<and> covers (4, 4, 44, 44) i j then orange_color
          else (0, 0, 0, 0))\<rparr>"
  have r: "create_humaya_logo covers 48 = Inr img"
    unfolding img_def create_humaya_logo_ok[of 48 covers, simplified]
    by (auto simp: in_box_def fun_eq_iff)
  have s: "width img = 48" "height img = 48" by (simp_all add: img_def)
  have px: "pixel_at img = (\<lambda>i j.
          if in_box (16, 12, 20, 36) i j \<or> in_box (28, 12, 32, 36) i j
             \<or> in_box (16, 22, 32, 26) i j then white_color
          else if in_box (4, 4, 44, 44) i j \<and> covers (4, 4, 44, 44) i j then orange_color
          else (0, 0, 0, 0))"
    by (simp add: img_def)
  have w: "pixel_at img i j = white_color \<longleftrightarrow>
      in_box (16, 12, 20, 36) i j \<or> in_box (28, 12, 32, 36) i j \<or> in_box (16, 22, 32, 26) i j"
    for i j
    unfolding px using emblem_colors_distinct by simp
  have a: "{i. pixel_at img i 24 = white_color} = {16..32}"
    unfolding w by (auto simp: in_box_def)
  have b: "{j. pixel_at img 16 j = white_color} = {12..36}"
    unfolding w by (auto simp: in_box_def)
  have c: "{i. pixel_at img i 12 = white_color} = {16..20} \<union> {28..32}"
    unfolding w by (auto simp: in_box_def)
  have d: "{j. pixel_at img 24 j = white_color} = {22..26}"
    unfolding w by (auto simp: in_box_def)
  have ca: "card {i. pixel_at img i 24 = white_color} = 17" unfolding a by simp
  have cb: "card {j. pixel_at img 16 j = white_color} = 25" unfolding b by simp
  have cd: "card {j. pixel_at img 24 j = white_color} = 5" unfolding d by simp
  show ?thesis
    by (rule exI[of _ img]) (intro conjI r s px a ca b cb c d cd)
qed

end
